theory Spec2Isabelle
  imports Complex_Main "HOL-Library.Sublist" "HOL-Library.Log_Nat"
begin

section \<open>Data model\<close>

text \<open>
  An image is a numpy array as OpenCV hands it out: two dimensions (height, width) for a
  single-channel image, three (height, width, channels) for a colour image, and the 8-bit
  samples in row-major order.
\<close>

datatype image = Image (rows: nat) (cols: nat) (channels: "nat option") (pixels: "nat list")

definition shape :: "image \<Rightarrow> nat list" where
  "shape img =
     (case channels img of
        None \<Rightarrow> [rows img, cols img]
      | Some c \<Rightarrow> [rows img, cols img, c])"

text \<open>
  The exceptions that reach the caller: the \<open>ValueError\<close> of \<open>extract_slides\<close> and of
  scikit-image, the \<open>ZeroDivisionError\<close> of the remainder, and the \<open>cv2.error\<close> of OpenCV.
\<close>

datatype error = ValueError string | ZeroDivisionError | cv2_error string

text \<open>
  The calls into OpenCV and scikit-image are parameters of the model: the colour
  conversion \<open>cv2.cvtColor(_, cv2.COLOR_BGR2GRAY)\<close>, \<open>cv2.resize(_, (width, height))\<close>,
  \<open>structural_similarity(_, _, full=True)\<close> (the mean score and the full score map) and
  \<open>cv2.VideoCapture\<close>, which yields the frames of the file at a path in decoding order, or
  nothing when the file cannot be opened. A call either returns or raises; the code
  catches nothing, so what a call raises leaves the function that made the call.
\<close>

record cv =
  cvtColor_BGR2GRAY :: "image \<Rightarrow> error + image"
  resize :: "image \<Rightarrow> nat \<times> nat \<Rightarrow> error + image"
  ssim :: "image \<Rightarrow> image \<Rightarrow> error + real \<times> real list"
  VideoCapture :: "string \<Rightarrow> image list option"

section \<open>Python floats\<close>

text \<open>
  A Python float is an IEEE 754 double. The model writes a float as the real number it
  denotes, and every arithmetic operation returns the exact result rounded to the
  nearest number with a significand of 53 bits, ties to the even significand. The
  exponent range is not bounded: overflow, subnormal numbers, infinities and NaN are
  outside the model.
\<close>

text \<open>
  \<open>pow2 e\<close> is 2 to the power \<open>e\<close>, and \<open>binade x\<close> is the exponent \<open>e\<close> for which the absolute
  value of \<open>x\<close> is at least \<open>pow2 e\<close> and below \<open>pow2 (e + 1)\<close>. A double has 53 significant
  bits, so the doubles of that binade are the multiples of \<open>pow2 (e - 52)\<close>.
\<close>

definition pow2 :: "int \<Rightarrow> real" where
  "pow2 e = (if 0 \<le> e then 2 ^ nat e else 1 / 2 ^ nat (- e))"

definition binade :: "real \<Rightarrow> int" where
  "binade x = (if 1 \<le> \<bar>x\<bar> then bitlen \<lfloor>\<bar>x\<bar>\<rfloor> - 1 else - bitlen (\<lceil>1 / \<bar>x\<bar>\<rceil> - 1))"

definition round_half_even :: "real \<Rightarrow> int" where
  "round_half_even m =
     (let f = \<lfloor>m\<rfloor>
      in if m - of_int f < 1 / 2 then f
         else if 1 / 2 < m - of_int f then f + 1
         else if even f then f else f + 1)"

definition round_double :: "real \<Rightarrow> real" where
  "round_double x =
     (if x = 0 then 0
      else (let ulp = pow2 (binade x - 52)
            in of_int (round_half_even (x / ulp)) * ulp))"

definition float_sub :: "real \<Rightarrow> real \<Rightarrow> real" where
  "float_sub a b = round_double (a - b)"

definition float_mul :: "real \<Rightarrow> real \<Rightarrow> real" where
  "float_mul a b = round_double (a * b)"

definition float_div :: "real \<Rightarrow> real \<Rightarrow> real" where
  "float_div a b = round_double (a / b)"

section \<open>slide\_detector.py\<close>

record SlideDetector =
  similarity_threshold :: real

definition SlideDetector_init :: "real \<Rightarrow> SlideDetector" where
  "SlideDetector_init threshold = \<lparr>similarity_threshold = threshold\<rparr>"

definition calculate_similarity :: "cv \<Rightarrow> image \<Rightarrow> image \<Rightarrow> error + real" where
  "calculate_similarity lib img1 img2 =
     (case ssim lib img1 img2 of
        Inl e \<Rightarrow> Inl e
      | Inr (score, _) \<Rightarrow> Inr score)"

text \<open>One pass of the loop body of \<open>is_new_slide\<close> up to the score (lines 36 to 47).\<close>

definition slide_score :: "cv \<Rightarrow> image \<Rightarrow> image \<Rightarrow> error + real" where
  "slide_score lib gray_frame existing_slide =
     (case (if length (shape existing_slide) = 3 then cvtColor_BGR2GRAY lib existing_slide
            else Inr existing_slide) of
        Inl e \<Rightarrow> Inl e
      | Inr existing_gray \<Rightarrow>
          (case (if shape existing_gray \<noteq> shape gray_frame
                 then resize lib existing_gray (shape gray_frame ! 1, shape gray_frame ! 0)
                 else Inr existing_gray) of
             Inl e \<Rightarrow> Inl e
           | Inr existing_gray \<Rightarrow> calculate_similarity lib gray_frame existing_gray))"

fun compare_slides :: "cv \<Rightarrow> SlideDetector \<Rightarrow> image \<Rightarrow> image list \<Rightarrow> error + bool" where
  "compare_slides lib self gray_frame [] = Inr True"
| "compare_slides lib self gray_frame (existing_slide # rest) =
     (case slide_score lib gray_frame existing_slide of
        Inl e \<Rightarrow> Inl e
      | Inr score \<Rightarrow>
          if score > float_sub 1 (similarity_threshold self) then Inr False
          else compare_slides lib self gray_frame rest)"

definition is_new_slide :: "cv \<Rightarrow> SlideDetector \<Rightarrow> image \<Rightarrow> image list \<Rightarrow> error + bool" where
  "is_new_slide lib self frame existing_slides =
     (if existing_slides = [] then Inr True
      else (case cvtColor_BGR2GRAY lib frame of
              Inl e \<Rightarrow> Inl e
            | Inr gray_frame \<Rightarrow> compare_slides lib self gray_frame existing_slides))"

text \<open>
  The same loop, recording next to the result the stored slides that were handed to the
  scoring, in order. It serves to state where the loop stops.
\<close>

fun compare_slides_scored ::
  "cv \<Rightarrow> SlideDetector \<Rightarrow> image \<Rightarrow> image list \<Rightarrow> (error + bool) \<times> image list" where
  "compare_slides_scored lib self gray_frame [] = (Inr True, [])"
| "compare_slides_scored lib self gray_frame (existing_slide # rest) =
     (case slide_score lib gray_frame existing_slide of
        Inl e \<Rightarrow> (Inl e, [existing_slide])
      | Inr score \<Rightarrow>
          if score > float_sub 1 (similarity_threshold self) then (Inr False, [existing_slide])
          else (case compare_slides_scored lib self gray_frame rest of
                  (new, scored) \<Rightarrow> (new, existing_slide # scored)))"

definition is_new_slide_scored ::
  "cv \<Rightarrow> SlideDetector \<Rightarrow> image \<Rightarrow> image list \<Rightarrow> (error + bool) \<times> image list" where
  "is_new_slide_scored lib self frame existing_slides =
     (if existing_slides = [] then (Inr True, [])
      else (case cvtColor_BGR2GRAY lib frame of
              Inl e \<Rightarrow> (Inl e, [])
            | Inr gray_frame \<Rightarrow> compare_slides_scored lib self gray_frame existing_slides))"

section \<open>video\_processor.py\<close>

record VideoProcessor =
  similarity_threshold :: real
  frame_skip :: int
  debug_mode :: bool
  slide_detector :: SlideDetector

text \<open>The constructor stores its arguments as they come and checks none of them.\<close>

definition VideoProcessor_init :: "real \<Rightarrow> int \<Rightarrow> bool \<Rightarrow> VideoProcessor" where
  "VideoProcessor_init threshold skip dbg =
     \<lparr>similarity_threshold = threshold, frame_skip = skip, debug_mode = dbg,
      slide_detector = SlideDetector_init threshold\<rparr>"

text \<open>
  \<open>max_dimension / max(height, width)\<close> is the float nearest to the quotient of the two
  integers, the products are float products, and \<open>int(_)\<close> truncates, which is the floor
  of a value that is not negative.
\<close>

definition preprocess_frame :: "cv \<Rightarrow> image \<Rightarrow> error + image" where
  "preprocess_frame lib frame =
     (let height = shape frame ! 0;
          width = shape frame ! 1;
          max_dimension = 1024
      in if max height width > max_dimension
         then (let scale = float_div (real max_dimension) (real (max height width));
                   new_width = nat \<lfloor>float_mul (real width) scale\<rfloor>;
                   new_height = nat \<lfloor>float_mul (real height) scale\<rfloor>
               in resize lib frame (new_width, new_height))
         else Inr frame)"

text \<open>
  The \<open>while True\<close> loop of \<open>extract_slides\<close>, over the frames that \<open>cap.read()\<close> still has
  to deliver; it ends when they run out. The remainder \<open>frame_count % self.frame_skip\<close>
  raises for a zero stride, and rounds towards the sign of the stride as \<open>mod\<close> on the
  integers does. The debug output changes no variable of the loop and is left out, and
  so are the frame count and the frame rate that are read before the loop, which only
  the debug output uses.
\<close>

fun read_frames ::
  "cv \<Rightarrow> VideoProcessor \<Rightarrow> image list \<Rightarrow> image list \<Rightarrow> int \<Rightarrow> error + image list \<times> int" where
  "read_frames lib self [] unique_slides frame_count = Inr (unique_slides, frame_count)"
| "read_frames lib self (frame # pending) unique_slides frame_count =
     (if frame_skip self = 0 then Inl ZeroDivisionError
      else if frame_count mod frame_skip self = 0
      then (case preprocess_frame lib frame of
              Inl e \<Rightarrow> Inl e
            | Inr processed_frame \<Rightarrow>
                (case is_new_slide lib (slide_detector self) processed_frame unique_slides of
                   Inl e \<Rightarrow> Inl e
                 | Inr new \<Rightarrow>
                     if new
                     then read_frames lib self pending (unique_slides @ [processed_frame])
                            (frame_count + 1)
                     else read_frames lib self pending unique_slides (frame_count + 1)))
      else read_frames lib self pending unique_slides (frame_count + 1))"

definition extract_slides :: "cv \<Rightarrow> VideoProcessor \<Rightarrow> string \<Rightarrow> error + image list" where
  "extract_slides lib self video_path =
     (case VideoCapture lib video_path of
        None \<Rightarrow> Inl (ValueError (''Could not open video file: '' @ video_path))
      | Some frames \<Rightarrow>
          (case read_frames lib self frames [] 0 of
             Inl e \<Rightarrow> Inl e
           | Inr (unique_slides, frame_count) \<Rightarrow> Inr unique_slides))"

text \<open>
  The same loop, recording every call of \<open>is_new_slide\<close>: the value of \<open>frame_count\<close>, the
  slide list handed over, and the slides of that list that were handed to the scoring.
  The record is kept whether the run returns or raises.
\<close>

fun read_frames_traced ::
  "cv \<Rightarrow> VideoProcessor \<Rightarrow> image list \<Rightarrow> image list \<Rightarrow> int \<Rightarrow>
     (error + image list \<times> int) \<times> (int \<times> image list \<times> image list) list" where
  "read_frames_traced lib self [] unique_slides frame_count =
     (Inr (unique_slides, frame_count), [])"
| "read_frames_traced lib self (frame # pending) unique_slides frame_count =
     (if frame_skip self = 0 then (Inl ZeroDivisionError, [])
      else if frame_count mod frame_skip self = 0
      then (case preprocess_frame lib frame of
              Inl e \<Rightarrow> (Inl e, [])
            | Inr processed_frame \<Rightarrow>
                (case is_new_slide_scored lib (slide_detector self) processed_frame
                        unique_slides of
                   (Inl e, scored) \<Rightarrow> (Inl e, [(frame_count, unique_slides, scored)])
                 | (Inr new, scored) \<Rightarrow>
                     (case read_frames_traced lib self pending
                             (if new then unique_slides @ [processed_frame] else unique_slides)
                             (frame_count + 1) of
                        (outcome, calls) \<Rightarrow>
                          (outcome, (frame_count, unique_slides, scored) # calls))))
      else read_frames_traced lib self pending unique_slides (frame_count + 1))"


section \<open>Auxiliary notions\<close>

text \<open>
  The comparison in the words of the decision rule: the stored slide is converted to
  grey when it is a colour image, the result is resized to the dimensions of the frame's
  grey image when the two differ, and the scorer is applied to the frame's grey image
  and that image. Each of the three steps is a library call that may raise.
\<close>

definition grey_version :: "cv \<Rightarrow> image \<Rightarrow> error + image" where
  "grey_version lib slide =
     (if channels slide = None then Inr slide else cvtColor_BGR2GRAY lib slide)"

definition fitted :: "cv \<Rightarrow> image \<Rightarrow> image \<Rightarrow> error + image" where
  "fitted lib grey_frame grey_slide =
     (if shape grey_slide = shape grey_frame then Inr grey_slide
      else resize lib grey_slide (cols grey_frame, rows grey_frame))"

definition matched_score :: "cv \<Rightarrow> image \<Rightarrow> image \<Rightarrow> error + real" where
  "matched_score lib grey_frame slide =
     (case grey_version lib slide of
        Inl e \<Rightarrow> Inl e
      | Inr grey_slide \<Rightarrow>
          (case fitted lib grey_frame grey_slide of
             Inl e \<Rightarrow> Inl e
           | Inr fit \<Rightarrow>
               (case ssim lib grey_frame fit of
                  Inl e \<Rightarrow> Inl e
                | Inr (sc, _) \<Rightarrow> Inr sc)))"

text \<open>
  The scan over the stored slides stops at a slide when its comparison raises or its
  score exceeds the limit \<open>1.0 - similarity_threshold\<close>, a float difference.
\<close>

definition stops_at :: "cv \<Rightarrow> SlideDetector \<Rightarrow> image \<Rightarrow> image \<Rightarrow> bool" where
  "stops_at lib self grey_frame slide =
     (case matched_score lib grey_frame slide of
        Inl e \<Rightarrow> True
      | Inr sc \<Rightarrow> sc > float_sub 1 (SlideDetector.similarity_threshold self))"

text \<open>
  A stored slide resembles a candidate frame when the comparison returns a score above
  the limit; the two are comparable when the comparison returns at all.
\<close>

definition resembles :: "cv \<Rightarrow> SlideDetector \<Rightarrow> image \<Rightarrow> image \<Rightarrow> bool" where
  "resembles lib self frame existing_slide =
     (case cvtColor_BGR2GRAY lib frame of
        Inl e \<Rightarrow> False
      | Inr grey_frame \<Rightarrow>
          (case matched_score lib grey_frame existing_slide of
             Inl e \<Rightarrow> False
           | Inr sc \<Rightarrow> sc > float_sub 1 (SlideDetector.similarity_threshold self)))"

definition comparable :: "cv \<Rightarrow> image \<Rightarrow> image \<Rightarrow> bool" where
  "comparable lib frame existing_slide =
     (case cvtColor_BGR2GRAY lib frame of
        Inl e \<Rightarrow> False
      | Inr grey_frame \<Rightarrow> \<not> isl (matched_score lib grey_frame existing_slide))"

text \<open>
  The effect of one checked frame on the slide list when its comparisons return, and the
  frames that the stride selects when the counter starts at \<open>c\<close>.
\<close>

definition admit :: "cv \<Rightarrow> SlideDetector \<Rightarrow> image list \<Rightarrow> image \<Rightarrow> image list" where
  "admit lib det slides candidate =
     (if \<forall>s\<in>set slides. \<not> resembles lib det candidate s then slides @ [candidate]
      else slides)"

fun sample :: "int \<Rightarrow> int \<Rightarrow> 'a list \<Rightarrow> 'a list" where
  "sample k c [] = []"
| "sample k c (x # xs) = (if c mod k = 0 then x # sample k (c + 1) xs else sample k (c + 1) xs)"

text \<open>
  Every slide of the list, taken as the candidate frame, has a score against each slide
  that stands before it, computed on the grey image of the candidate and the grey,
  resized image of the earlier slide, and that score is at most the limit.
\<close>

definition kept_apart :: "cv \<Rightarrow> SlideDetector \<Rightarrow> image list \<Rightarrow> bool" where
  "kept_apart lib det slides \<longleftrightarrow>
     (\<forall>j<length slides. \<forall>i<j.
        (case cvtColor_BGR2GRAY lib (slides ! j) of
           Inl e \<Rightarrow> False
         | Inr grey_frame \<Rightarrow>
             (case matched_score lib grey_frame (slides ! i) of
                Inl e \<Rightarrow> False
              | Inr sc \<Rightarrow> sc \<le> float_sub 1 (SlideDetector.similarity_threshold det))))"

text \<open>
  The library accepts a list of frames when no call raises on them: each frame is
  preprocessed, and is comparable with every frame that comes before it in the list.
  \<open>held\<close> are the preprocessed frames seen so far.
\<close>

fun accepts :: "cv \<Rightarrow> image list \<Rightarrow> image list \<Rightarrow> bool" where
  "accepts lib held [] = True"
| "accepts lib held (frame # pending) =
     (case preprocess_frame lib frame of
        Inl e \<Rightarrow> False
      | Inr processed_frame \<Rightarrow>
          (\<forall>s\<in>set held. comparable lib processed_frame s) \<and>
          accepts lib (held @ [processed_frame]) pending)"

definition library_accepts :: "cv \<Rightarrow> image list \<Rightarrow> bool" where
  "library_accepts lib frames = accepts lib [] frames"

section \<open>Saving the slides\<close>

text \<open>
  \<open>cv2.imwrite\<close> is a parameter: it takes the path, the image and the state of the disk,
  and either raises or answers whether it wrote, and it leaves a new state of the disk.
  \<open>save_slide\<close> drops the answer and returns \<open>None\<close>; it catches nothing.
\<close>

definition save_slide ::
  "(string \<Rightarrow> image \<Rightarrow> 'fs \<Rightarrow> (error + bool) \<times> 'fs) \<Rightarrow> image \<Rightarrow> string \<Rightarrow> 'fs \<Rightarrow>
     (error + unit) \<times> 'fs" where
  "save_slide imwrite slide output_path disk =
     (case imwrite output_path slide disk of
        (Inl e, disk') \<Rightarrow> (Inl e, disk')
      | (Inr written, disk') \<Rightarrow> (Inr (), disk'))"

text \<open>The decimal digits of a number, and \<open>f"slide_{i+1:03d}.jpg"\<close>.\<close>

function decimal :: "nat \<Rightarrow> string" where
  "decimal n =
     (if n < 10 then [''0123456789'' ! n]
      else decimal (n div 10) @ [''0123456789'' ! (n mod 10)])"
  by pat_completeness auto
termination
  by (relation "measure id") auto

declare decimal.simps [simp del]

definition slide_name :: "nat \<Rightarrow> string" where
  "slide_name i =
     (let digits = decimal (i + 1)
      in ''slide_'' @ replicate (3 - length digits) CHR ''0'' @ digits @ ''.jpg'')"

text \<open>\<open>os.path.join\<close> of two components, as on POSIX systems.\<close>

definition path_join :: "string \<Rightarrow> string \<Rightarrow> string" where
  "path_join a b =
     (if b \<noteq> [] \<and> hd b = CHR ''/'' then b
      else if a = [] \<or> last a = CHR ''/'' then a @ b
      else a @ ''/'' @ b)"

text \<open>
  The loop that ends \<open>process_video\<close> in main.py: it numbers the slides from \<open>i\<close> and saves
  each one under its name in the output directory. An exception ends the loop.
\<close>

fun save_slides ::
  "(string \<Rightarrow> image \<Rightarrow> 'fs \<Rightarrow> (error + bool) \<times> 'fs) \<Rightarrow> string \<Rightarrow> nat \<Rightarrow> image list \<Rightarrow> 'fs \<Rightarrow>
     (error + unit) \<times> 'fs" where
  "save_slides imwrite output_dir i [] disk = (Inr (), disk)"
| "save_slides imwrite output_dir i (slide # rest) disk =
     (case save_slide imwrite slide (path_join output_dir (slide_name i)) disk of
        (Inl e, disk') \<Rightarrow> (Inl e, disk')
      | (Inr _, disk') \<Rightarrow> save_slides imwrite output_dir (i + 1) rest disk')"

text \<open>
  A writer that also keeps the list of the paths it was called with and of what each
  call did.
\<close>

definition recording ::
  "(string \<Rightarrow> image \<Rightarrow> 'fs \<Rightarrow> (error + bool) \<times> 'fs) \<Rightarrow>
     string \<Rightarrow> image \<Rightarrow> 'fs \<times> (string \<times> (error + bool)) list \<Rightarrow>
     (error + bool) \<times> 'fs \<times> (string \<times> (error + bool)) list" where
  "recording imwrite output_path img st =
     (case st of (disk, calls) \<Rightarrow>
        (case imwrite output_path img disk of
           (answer, disk') \<Rightarrow> (answer, disk', calls @ [(output_path, answer)])))"

section \<open>The similarity scorer\<close>

text \<open>
  Modelled from the spec: the structural similarity index that \<open>_calculate_similarity\<close>
  obtains from scikit-image, whose source is not part of the repository. The spec
  describes the score of two single-channel images of equal dimensions as computed from
  local windowed statistics (mean, variance, covariance) with the standard stabilisation
  constants and aggregated to one scalar. The model takes every window of side \<open>win\<close> that
  fits into the image, scores the two windows by the usual formula with the constants
  for 8-bit samples, and returns the mean of the window scores together with the scores.
\<close>

definition mean :: "real list \<Rightarrow> real" where
  "mean xs = sum_list xs / real (length xs)"

definition covariance :: "real list \<Rightarrow> real list \<Rightarrow> real" where
  "covariance xs ys = mean (map (\<lambda>(x, y). (x - mean xs) * (y - mean ys)) (zip xs ys))"

definition variance :: "real list \<Rightarrow> real" where
  "variance xs = covariance xs xs"

definition C1 :: real where
  "C1 = (0.01 * 255)\<^sup>2"

definition C2 :: real where
  "C2 = (0.03 * 255)\<^sup>2"

definition window_ssim :: "real list \<Rightarrow> real list \<Rightarrow> real" where
  "window_ssim xs ys =
     ((2 * mean xs * mean ys + C1) * (2 * covariance xs ys + C2))
     / (((mean xs)\<^sup>2 + (mean ys)\<^sup>2 + C1) * (variance xs + variance ys + C2))"

definition window_at :: "nat \<Rightarrow> image \<Rightarrow> nat \<times> nat \<Rightarrow> real list" where
  "window_at win img pos =
     (case pos of (r, c) \<Rightarrow>
        concat (map (\<lambda>i. map (\<lambda>j. real (pixels img ! ((r + i) * cols img + (c + j)))) [0..<win])
                  [0..<win]))"

definition window_positions :: "nat \<Rightarrow> image \<Rightarrow> (nat \<times> nat) list" where
  "window_positions win img =
     concat (map (\<lambda>r. map (\<lambda>c. (r, c)) [0..<cols img + 1 - win]) [0..<rows img + 1 - win])"

text \<open>
  Modelled from the spec: \<open>score(a, b)\<close>, the result of \<open>structural_similarity(a, b,
  full=True)\<close>, which is missing from the sources: the mean of the window scores over the
  positions where a window fits, and the window scores themselves.
\<close>

definition score :: "nat \<Rightarrow> image \<Rightarrow> image \<Rightarrow> real \<times> real list" where
  "score win a b =
     (let local = map (\<lambda>pos. window_ssim (window_at win a pos) (window_at win b pos))
                    (window_positions win a)
      in (mean local, local))"

section \<open>A small library for evaluation\<close>

text \<open>
  Stand-ins for the library calls, used where a statement is evaluated at a concrete
  input: the mean of the channels as the grey value, nearest-neighbour resizing, and a
  score that falls linearly with the mean absolute difference of the samples. They
  reject what the libraries are documented to reject: the conversion an image without
  three channels, the resizing an empty source or target size, the scorer two images of
  different shape or with a side shorter than its window of 7 pixels, and the writer
  an image without samples.
\<close>

definition test_gray :: "image \<Rightarrow> error + image" where
  "test_gray img =
     (if channels img \<noteq> Some 3
      then Inl (cv2_error ''Invalid number of channels in input image'')
      else Inr (Image (rows img) (cols img) None
                  (map (\<lambda>i. sum_list (take 3 (drop (i * 3) (pixels img))) div 3)
                     [0..<rows img * cols img])))"

definition test_resize :: "image \<Rightarrow> nat \<times> nat \<Rightarrow> error + image" where
  "test_resize img dsize =
     (case dsize of (w, h) \<Rightarrow>
        if w = 0 \<or> h = 0 \<or> rows img = 0 \<or> cols img = 0
        then Inl (cv2_error ''resize: empty source or target size'')
        else (let c = (case channels img of None \<Rightarrow> 1 | Some c \<Rightarrow> c)
              in Inr (Image h w (channels img)
                        (map (\<lambda>i. pixels img !
                                ((((i div c) div w * rows img div h) * cols img
                                   + ((i div c) mod w) * cols img div w) * c + i mod c))
                           [0..<h * w * c]))))"

definition test_ssim :: "image \<Rightarrow> image \<Rightarrow> error + real \<times> real list" where
  "test_ssim a b =
     (if shape a \<noteq> shape b then Inl (ValueError ''Input images must have the same dimensions.'')
      else if rows a < 7 \<or> cols a < 7 then Inl (ValueError ''win_size exceeds image extent.'')
      else (let local = map (\<lambda>(x, y). 1 - \<bar>real x - real y\<bar> / 255)
                          (zip (pixels a) (pixels b))
            in Inr (sum_list local / real (length local), local)))"

definition test_cv :: "(string \<Rightarrow> image list option) \<Rightarrow> cv" where
  "test_cv videos =
     \<lparr>cvtColor_BGR2GRAY = test_gray, resize = test_resize, ssim = test_ssim,
      VideoCapture = videos\<rparr>"

text \<open>
  A colour frame of 7 by 7 pixels with the same value in every sample, one of a single
  pixel, a colour image of 14 by 14 pixels, a grey image of 7 by 7 pixels, and a black
  colour frame of 2000 rows and one column.
\<close>

definition solid :: "nat \<Rightarrow> image" where
  "solid v = Image 7 7 (Some 3) (replicate 147 v)"

definition dot :: "nat \<Rightarrow> image" where
  "dot v = Image 1 1 (Some 3) [v, v, v]"

definition large :: "nat \<Rightarrow> image" where
  "large v = Image 14 14 (Some 3) (replicate 588 v)"

definition grey :: "nat \<Rightarrow> image" where
  "grey v = Image 7 7 None (replicate 49 v)"

definition thin :: image where
  "thin = Image 2000 1 (Some 3) (replicate 6000 0)"

definition test_videos :: "string \<Rightarrow> image list option" where
  "test_videos =
     [''still.mp4'' \<mapsto> [solid 10, solid 10, solid 10],
      ''talk.mp4'' \<mapsto> [solid 10, solid 10, solid 10, solid 200],
      ''fade.mp4'' \<mapsto> [solid 0, solid 100, solid 70, solid 100, solid 130],
      ''tiny.mp4'' \<mapsto> [dot 10, dot 200],
      ''thin.mp4'' \<mapsto> [thin, thin],
      ''empty.mp4'' \<mapsto> []]"

text \<open>
  A writer that raises for an image without samples, answers \<open>False\<close> for the paths of a
  given list, and stores the image otherwise.
\<close>

definition test_imwrite ::
  "string list \<Rightarrow> string \<Rightarrow> image \<Rightarrow> (string \<Rightarrow> image option) \<Rightarrow>
     (error + bool) \<times> (string \<Rightarrow> image option)" where
  "test_imwrite refused output_path img disk =
     (if pixels img = [] then (Inl (cv2_error ''imwrite: empty image''), disk)
      else if output_path \<in> set refused then (Inr False, disk)
      else (Inr True, disk(output_path \<mapsto> img)))"

section \<open>Properties\<close>

subsection \<open>Rounding\<close>

lemma pow2_powr: "pow2 e = 2 powr real_of_int e"
proof (cases "0 \<le> e")
  case True
  then show ?thesis by (simp add: pow2_def powr_realpow [symmetric])
next
  case False
  then have "real (nat (- e)) = - real_of_int e" by simp
  then have "(2::real) ^ nat (- e) = 2 powr (- real_of_int e)"
    by (metis powr_realpow zero_less_numeral)
  with False show ?thesis by (simp add: pow2_def powr_minus_divide)
qed

lemma pow2_pos [simp]: "0 < pow2 e"
  by (simp add: pow2_powr)

lemma pow2_add: "pow2 (a + b) = pow2 a * pow2 b"
  by (simp add: pow2_powr powr_add)

lemma pow2_mono: "a \<le> b \<Longrightarrow> pow2 a \<le> pow2 b"
  by (simp add: pow2_powr)

lemma round_half_even_le:
  assumes "m < of_int N"
  shows "round_half_even m \<le> N"
proof -
  have "\<lfloor>m\<rfloor> < N" using assms by (simp add: floor_less_iff)
  then show ?thesis by (auto simp: round_half_even_def Let_def)
qed

lemma round_half_even_below_half:
  assumes "m < of_int N - 1 / 2"
  shows "round_half_even m \<le> N - 1"
proof -
  have "m < of_int N" using assms by simp
  then have f: "\<lfloor>m\<rfloor> \<le> N - 1" by (simp add: floor_less_iff)
  show ?thesis
  proof (cases "\<lfloor>m\<rfloor> = N - 1")
    case True
    then have "m - of_int \<lfloor>m\<rfloor> < 1 / 2" using assms by simp
    with True show ?thesis by (simp add: round_half_even_def Let_def)
  next
    case False
    with f have "\<lfloor>m\<rfloor> + 1 \<le> N - 1" by simp
    then show ?thesis by (auto simp: round_half_even_def Let_def)
  qed
qed

lemma binade_below_one:
  assumes "0 < x" "x < 1"
  shows "binade x \<le> - 1" and "x < pow2 (binade x + 1)"
proof -
  let ?n = "\<lceil>1 / x\<rceil> - 1"
  have inv: "1 < 1 / x" using assms by simp
  then have "2 \<le> \<lceil>1 / x\<rceil>" by (simp add: le_ceiling_iff)
  then have n: "0 < ?n" by simp
  have b: "binade x = - bitlen ?n" using assms by (simp add: binade_def)
  from bitlen_bounds [OF n] have low: "2 ^ nat (bitlen ?n - 1) \<le> ?n" ..
  have "0 < bitlen ?n"
    using n bitlen_eq_zero_iff [of ?n] bitlen_nonneg [of ?n] by linarith
  then show "binade x \<le> - 1" using b by simp
  have "real_of_int ?n < 1 / x" by (simp add: ceiling_less_iff [symmetric]) linarith
  moreover have "(2::real) ^ nat (bitlen ?n - 1) \<le> real_of_int ?n"
    using low by (metis of_int_le_iff of_int_numeral of_int_power)
  ultimately have "(2::real) ^ nat (bitlen ?n - 1) < 1 / x" by simp
  then have "x < 1 / 2 ^ nat (bitlen ?n - 1)"
    using assms(1) by (simp add: field_simps)
  moreover have "pow2 (binade x + 1) = 1 / 2 ^ nat (bitlen ?n - 1)"
    using \<open>0 < bitlen ?n\<close> b by (auto simp: pow2_def)
  ultimately show "x < pow2 (binade x + 1)" by simp
qed

lemma round_double_nonpos:
  assumes "x \<le> 0"
  shows "round_double x \<le> 0"
proof (cases "x = 0")
  case True
  then show ?thesis by (simp add: round_double_def)
next
  case False
  with assms have "x / pow2 (binade x - 52) < of_int 0"
    by (simp add: divide_neg_pos)
  then have "round_half_even (x / pow2 (binade x - 52)) \<le> 0"
    by (rule round_half_even_le)
  then have "real_of_int (round_half_even (x / pow2 (binade x - 52))) * pow2 (binade x - 52) \<le> 0"
    by (intro mult_nonpos_nonneg) (simp_all add: less_imp_le)
  then show ?thesis
    using False by (simp add: round_double_def Let_def)
qed

lemma round_double_below_one:
  assumes "x < 1 - 1 / 2 ^ 54"
  shows "round_double x < 1"
proof (cases "x \<le> 0")
  case True
  then have "round_double x \<le> 0" by (rule round_double_nonpos)
  then show ?thesis by simp
next
  case False
  then have pos: "0 < x" by simp
  have lt1: "x < 1" using assms by (simp add: field_simps) 
  note b = binade_below_one [OF pos lt1]
  let ?ulp = "pow2 (binade x - 52)"
  have rd: "round_double x = of_int (round_half_even (x / ?ulp)) * ?ulp"
    using pos by (simp add: round_double_def Let_def)
  have p53: "pow2 53 = 2 ^ 53" by (simp add: pow2_def)
  have shift: "53 + (binade x - 52) = binade x + 1" by simp
  have "pow2 (53 + (binade x - 52)) = pow2 53 * ?ulp" by (rule pow2_add)
  then have split: "pow2 (binade x + 1) = 2 ^ 53 * ?ulp"
    by (simp only: shift p53)
  show ?thesis
  proof (cases "binade x = - 1")
    case True
    then have ulp: "?ulp = 1 / 2 ^ 53" by (simp add: pow2_def)
    have "x / ?ulp < of_int (2 ^ 53) - 1 / 2"
      using assms unfolding ulp by (simp add: field_simps)
    then have "round_half_even (x / ?ulp) \<le> 2 ^ 53 - 1"
      by (rule round_half_even_below_half)
    then have "real_of_int (round_half_even (x / ?ulp)) \<le> real_of_int (2 ^ 53 - 1)"
      by (simp only: of_int_le_iff)
    then have "real_of_int (round_half_even (x / ?ulp)) \<le> 2 ^ 53 - 1"
      by simp
    then show ?thesis unfolding rd ulp by (simp add: field_simps)
  next
    case False
    with b(1) have le: "binade x + 1 \<le> - 1" by simp
    have "x < 2 ^ 53 * ?ulp" using b(2) by (simp only: split)
    then have "x / ?ulp < 2 ^ 53" by (simp add: pos_divide_less_eq)
    then have "x / ?ulp < of_int (2 ^ 53)" by simp
    then have "round_half_even (x / ?ulp) \<le> 2 ^ 53"
      by (rule round_half_even_le)
    then have "real_of_int (round_half_even (x / ?ulp)) \<le> real_of_int (2 ^ 53)"
      by (simp only: of_int_le_iff)
    then have "real_of_int (round_half_even (x / ?ulp)) \<le> 2 ^ 53"
      by simp
    then have "round_double x \<le> 2 ^ 53 * ?ulp"
      unfolding rd by (simp add: mult_right_mono)
    also have "\<dots> = pow2 (binade x + 1)" by (simp add: split)
    also have "\<dots> \<le> pow2 (- 1)" using le by (rule pow2_mono)
    also have "\<dots> < 1" by (simp add: pow2_def)
    finally show ?thesis .
  qed
qed

lemma float_sub_one_below_one: "1 / 2 ^ 54 < t \<Longrightarrow> float_sub 1 t < 1"
  unfolding float_sub_def by (rule round_double_below_one) simp


subsection \<open>The decision rule\<close>

lemma shape_nth [simp]: "shape img ! 0 = rows img" "shape img ! Suc 0 = cols img"
  by (simp_all add: shape_def split: option.split)

lemma length_shape_3: "length (shape img) = 3 \<longleftrightarrow> channels img \<noteq> None"
  by (simp add: shape_def split: option.split)

lemma grey_step:
  "(if length (shape s) = 3 then cvtColor_BGR2GRAY lib s else Inr s) = grey_version lib s"
  by (simp add: grey_version_def length_shape_3)

lemma fit_step:
  "(if shape sg \<noteq> shape g then resize lib sg (shape g ! 1, shape g ! 0) else Inr sg) =
     fitted lib g sg"
  by (simp add: fitted_def)

lemma slide_score_matched: "slide_score lib g s = matched_score lib g s"
  unfolding slide_score_def grey_step fit_step matched_score_def calculate_similarity_def
  by (rule refl)

lemma compare_slides_first:
  "compare_slides lib self g S =
     (case dropWhile (\<lambda>s. \<not> stops_at lib self g s) S of
        [] \<Rightarrow> Inr True
      | s # _ \<Rightarrow> (case matched_score lib g s of Inl e \<Rightarrow> Inl e | Inr _ \<Rightarrow> Inr False))"
  by (induction S) (auto simp: slide_score_matched stops_at_def split: sum.splits)

lemma compare_slides_scored_eq:
  "compare_slides_scored lib self g S =
     (compare_slides lib self g S,
      takeWhile (\<lambda>s. \<not> stops_at lib self g s) S
      @ take 1 (dropWhile (\<lambda>s. \<not> stops_at lib self g s) S))"
  by (induction S) (auto simp: slide_score_matched stops_at_def split: sum.splits)

lemma compare_slides_all:
  assumes "\<forall>s\<in>set S. \<not> isl (matched_score lib g s)"
  shows "compare_slides lib self g S =
           Inr (\<not> (\<exists>s\<in>set S. \<exists>sc. matched_score lib g s = Inr sc \<and>
                     sc > float_sub 1 (SlideDetector.similarity_threshold self)))"
  using assms
  by (induction S) (auto simp: slide_score_matched split: sum.splits)


lemma is_new_slide_scored_fst:
  "fst (is_new_slide_scored lib self f S) = is_new_slide lib self f S"
  by (simp add: is_new_slide_scored_def is_new_slide_def compare_slides_scored_eq
      split: sum.splits)

lemma is_new_slide_comparable:
  assumes "\<forall>s\<in>set S. comparable lib f s"
  shows "is_new_slide lib det f S = Inr (\<forall>s\<in>set S. \<not> resembles lib det f s)"
proof (cases "S = []")
  case True
  then show ?thesis by (simp add: is_new_slide_def)
next
  case False
  then obtain s0 where "s0 \<in> set S" by (cases S) auto
  with assms have "comparable lib f s0" by blast
  then obtain g where g: "cvtColor_BGR2GRAY lib f = Inr g"
    by (cases "cvtColor_BGR2GRAY lib f") (simp_all add: comparable_def)
  with assms have "\<forall>s\<in>set S. \<not> isl (matched_score lib g s)"
    by (auto simp: comparable_def)
  from compare_slides_all [OF this] show ?thesis
    using False g by (auto simp: is_new_slide_def resembles_def split: sum.splits)
qed

lemma is_new_slide_True:
  assumes "is_new_slide lib det f S = Inr True" "s \<in> set S"
  shows "case cvtColor_BGR2GRAY lib f of
           Inl e \<Rightarrow> False
         | Inr g \<Rightarrow>
             (case matched_score lib g s of
                Inl e \<Rightarrow> False
              | Inr sc \<Rightarrow> sc \<le> float_sub 1 (SlideDetector.similarity_threshold det))"
proof -
  from assms(2) have ne: "S \<noteq> []" by auto
  with assms(1) obtain g where g: "cvtColor_BGR2GRAY lib f = Inr g"
    and run: "compare_slides lib det g S = Inr True"
    by (auto simp: is_new_slide_def split: sum.splits)
  have "\<And>s. s \<in> set S \<Longrightarrow> \<exists>sc. matched_score lib g s = Inr sc \<and>
      sc \<le> float_sub 1 (SlideDetector.similarity_threshold det)"
    using run
    by (induction S) (auto simp: slide_score_matched split: sum.splits if_splits)
  with assms(2) g show ?thesis by fastforce
qed

text \<open>
  C1. \<open>is_new_slide\<close> returns \<open>True\<close> when there is no stored slide. With stored slides \<open>S\<close>
  it first converts the frame to its grey image \<open>g\<close>. When the comparisons return, it
  returns \<open>False\<close> exactly when some slide of \<open>S\<close>, converted to grey when it is a colour
  image and resized to the dimensions of \<open>g\<close> when its own differ, has a score with \<open>g\<close>
  strictly above the float \<open>1.0 - similarity_threshold\<close>. The scan ends at the first slide
  whose score is above the limit, with \<open>False\<close>, or whose comparison raises, with that
  exception: the slides handed to the scoring are the slides of \<open>S\<close> up to and including
  that one, and the answer is \<open>True\<close> only when the frame has been compared with every
  slide of \<open>S\<close> and none stopped the scan.
\<close>

theorem is_new_slide_decision:
  "is_new_slide lib self f [] = Inr True \<and>
   (S \<noteq> [] \<longrightarrow> (\<forall>e. cvtColor_BGR2GRAY lib f = Inl e \<longrightarrow> is_new_slide lib self f S = Inl e)) \<and>
   (\<forall>g. cvtColor_BGR2GRAY lib f = Inr g \<longrightarrow>
      ((\<forall>s\<in>set S. \<not> isl (matched_score lib g s)) \<longrightarrow>
         is_new_slide lib self f S =
           Inr (\<not> (\<exists>s\<in>set S. \<exists>sc. matched_score lib g s = Inr sc \<and>
                     sc > float_sub 1 (SlideDetector.similarity_threshold self)))) \<and>
      is_new_slide lib self f S =
        (case dropWhile (\<lambda>s. \<not> stops_at lib self g s) S of
           [] \<Rightarrow> Inr True
         | s # _ \<Rightarrow> (case matched_score lib g s of Inl e \<Rightarrow> Inl e | Inr _ \<Rightarrow> Inr False)) \<and>
      is_new_slide_scored lib self f S =
        (is_new_slide lib self f S,
         takeWhile (\<lambda>s. \<not> stops_at lib self g s) S
         @ take 1 (dropWhile (\<lambda>s. \<not> stops_at lib self g s) S)))"
proof (intro conjI allI impI)
  show "is_new_slide lib self f [] = Inr True" by (simp add: is_new_slide_def)
next
  fix e assume "S \<noteq> []" "cvtColor_BGR2GRAY lib f = Inl e"
  then show "is_new_slide lib self f S = Inl e" by (simp add: is_new_slide_def)
next
  fix g assume g: "cvtColor_BGR2GRAY lib f = Inr g"
  show "is_new_slide lib self f S =
        (case dropWhile (\<lambda>s. \<not> stops_at lib self g s) S of
           [] \<Rightarrow> Inr True
         | s # _ \<Rightarrow> (case matched_score lib g s of Inl e \<Rightarrow> Inl e | Inr _ \<Rightarrow> Inr False))"
    using g by (cases "S = []") (simp_all add: is_new_slide_def compare_slides_first)
  show "is_new_slide_scored lib self f S =
        (is_new_slide lib self f S,
         takeWhile (\<lambda>s. \<not> stops_at lib self g s) S
         @ take 1 (dropWhile (\<lambda>s. \<not> stops_at lib self g s) S))"
    using g
    by (cases "S = []")
      (simp_all add: is_new_slide_def is_new_slide_scored_def compare_slides_scored_eq)
  assume "\<forall>s\<in>set S. \<not> isl (matched_score lib g s)"
  from compare_slides_all [OF this, of self]
  show "is_new_slide lib self f S =
           Inr (\<not> (\<exists>s\<in>set S. \<exists>sc. matched_score lib g s = Inr sc \<and>
                     sc > float_sub 1 (SlideDetector.similarity_threshold self)))"
    using g by (cases "S = []") (simp_all add: is_new_slide_def)
qed


subsection \<open>The scan\<close>

lemma read_frames_zero:
  "frame_skip self = 0 \<Longrightarrow>
     read_frames lib self frames S c = (if frames = [] then Inr (S, c) else Inl ZeroDivisionError)"
  by (cases frames) simp_all

lemma read_frames_traced_fst:
  "fst (read_frames_traced lib self frames S c) = read_frames lib self frames S c"
proof (induction frames arbitrary: S c)
  case Nil
  then show ?case by simp
next
  case (Cons f frames)
  show ?case
  proof (cases "preprocess_frame lib f")
    case (Inl e)
    then show ?thesis by (simp add: Cons.IH)
  next
    case (Inr p)
    obtain res scored where sc: "is_new_slide_scored lib (slide_detector self) p S = (res, scored)"
      by (cases "is_new_slide_scored lib (slide_detector self) p S")
    then have res: "is_new_slide lib (slide_detector self) p S = res"
      using is_new_slide_scored_fst [of lib "slide_detector self" p S] by simp
    show ?thesis
    proof (cases res)
      case (Inl e)
      with Inr sc res show ?thesis by (simp add: Cons.IH)
    next
      case new: (Inr new)
      with Inr sc res show ?thesis
        by (simp add: Cons.IH [symmetric] split: prod.splits)
    qed
  qed
qed

lemma read_frames_append:
  "read_frames lib self (xs @ ys) S c =
     (case read_frames lib self xs S c of
        Inl e \<Rightarrow> Inl e
      | Inr (S', c') \<Rightarrow> read_frames lib self ys S' c')"
  by (induction xs arbitrary: S c) (simp_all split: sum.splits)

lemma read_frames_grows:
  "read_frames lib self frames S c = Inr (S', c') \<Longrightarrow> prefix S S'"
proof (induction frames arbitrary: S c)
  case Nil
  then show ?case by simp
next
  case (Cons f frames)
  from Cons.prems show ?case
    by (auto split: if_splits sum.splits dest!: Cons.IH dest: append_prefixD)
qed

lemma kept_apart_snoc:
  assumes "kept_apart lib det S" "is_new_slide lib det p S = Inr True"
  shows "kept_apart lib det (S @ [p])"
  unfolding kept_apart_def
proof (intro allI impI)
  fix j i assume j: "j < length (S @ [p])" and i: "i < j"
  show "case cvtColor_BGR2GRAY lib ((S @ [p]) ! j) of
          Inl e \<Rightarrow> False
        | Inr grey_frame \<Rightarrow>
            (case matched_score lib grey_frame ((S @ [p]) ! i) of
               Inl e \<Rightarrow> False
             | Inr sc \<Rightarrow> sc \<le> float_sub 1 (SlideDetector.similarity_threshold det))"
  proof (cases "j < length S")
    case True
    with i have eq: "(S @ [p]) ! j = S ! j" "(S @ [p]) ! i = S ! i"
      by (simp_all add: nth_append)
    show ?thesis
      unfolding eq using assms(1) [unfolded kept_apart_def, rule_format, OF True i] .
  next
    case False
    with j have jl: "j = length S" by simp
    with i have eq: "(S @ [p]) ! j = p" "(S @ [p]) ! i = S ! i"
      by (simp_all add: nth_append)
    from jl i have "S ! i \<in> set S" by simp
    from is_new_slide_True [OF assms(2) this] show ?thesis
      unfolding eq .
  qed
qed

lemma read_frames_kept_apart:
  "read_frames lib self frames S c = Inr (S', c') \<Longrightarrow> kept_apart lib (slide_detector self) S
     \<Longrightarrow> kept_apart lib (slide_detector self) S'"
proof (induction frames arbitrary: S c)
  case Nil
  then show ?case by simp
next
  case (Cons f frames)
  from Cons.prems show ?case
    by (auto split: if_splits sum.splits dest!: Cons.IH intro: kept_apart_snoc)
qed

subsection \<open>The calls of the decision rule during a run\<close>

lemma scored_prefix: "prefix (snd (is_new_slide_scored lib det f S)) S"
proof -
  have "prefix (takeWhile P S @ take 1 (dropWhile P S)) S" for P :: "image \<Rightarrow> bool"
  proof -
    have "prefix (takeWhile P S @ take 1 (dropWhile P S)) (takeWhile P S @ dropWhile P S)"
      unfolding same_prefix_prefix by (rule take_is_prefix)
    then show ?thesis by simp
  qed
  then show ?thesis
    by (simp add: is_new_slide_scored_def compare_slides_scored_eq split: sum.splits)
qed

lemma traced_counts:
  "read_frames_traced lib self frames S c = (outcome, calls) \<Longrightarrow>
     sorted_wrt (<) (map fst calls) \<and> (\<forall>n\<in>set (map fst calls). c \<le> n)"
proof (induction frames arbitrary: S c outcome calls)
  case Nil
  then show ?case by simp
next
  case (Cons f frames)
  from Cons.prems show ?case
    by (fastforce split: if_splits sum.splits prod.splits dest!: Cons.IH)
qed

lemma traced_held:
  "read_frames_traced lib self frames S c = (Inr (S', c'), calls) \<Longrightarrow>
     \<forall>(n, held, scored)\<in>set calls. prefix scored held \<and> prefix held S'"
proof (induction frames arbitrary: S c calls)
  case Nil
  then show ?case by simp
next
  case (Cons f frames)
  show ?case
  proof (cases "frame_skip self \<noteq> 0 \<and> c mod frame_skip self = 0")
    case False
    with Cons.prems show ?thesis
      by (auto split: if_splits dest!: Cons.IH)
  next
    case True
    with Cons.prems obtain p where p: "preprocess_frame lib f = Inr p"
      by (cases "preprocess_frame lib f") auto
    obtain res scored where sc: "is_new_slide_scored lib (slide_detector self) p S = (res, scored)"
      by (cases "is_new_slide_scored lib (slide_detector self) p S")
    with Cons.prems True p obtain new where new: "res = Inr new"
      by (cases res) auto
    let ?S = "if new then S @ [p] else S"
    obtain rest where rest: "read_frames_traced lib self frames ?S (c + 1) = (Inr (S', c'), rest)"
      and calls: "calls = (c, S, scored) # rest"
      using Cons.prems True p sc new by (auto split: prod.splits)
    have "read_frames lib self frames ?S (c + 1) = Inr (S', c')"
      using read_frames_traced_fst [of lib self frames ?S "c + 1"] rest by simp
    then have "prefix ?S S'" by (rule read_frames_grows)
    then have "prefix S S'" by (auto split: if_splits dest: append_prefixD)
    moreover have "prefix scored S"
      using scored_prefix [of lib "slide_detector self" p S] sc by simp
    ultimately show ?thesis
      using Cons.IH [OF rest] calls by simp
  qed
qed



subsection \<open>Runs on which no library call raises\<close>

lemma read_frames_accepted:
  assumes "frame_skip self \<noteq> 0"
    and "accepts lib held (sample (frame_skip self) c frames)"
    and "set S \<subseteq> set held"
  shows "read_frames lib self frames S c =
           Inr (foldl (admit lib (slide_detector self)) S
                  (map (\<lambda>x. projr (preprocess_frame lib x)) (sample (frame_skip self) c frames)),
                c + int (length frames))"
  using assms(2,3)
proof (induction frames arbitrary: S c held)
  case Nil
  then show ?case by simp
next
  case (Cons f frames)
  show ?case
  proof (cases "c mod frame_skip self = 0")
    case False
    with Cons.prems Cons.IH [of held "c + 1" S] assms(1) show ?thesis by simp
  next
    case True
    with Cons.prems(1) obtain p where p: "preprocess_frame lib f = Inr p"
      and cmp: "\<forall>s\<in>set held. comparable lib p s"
      and rest: "accepts lib (held @ [p]) (sample (frame_skip self) (c + 1) frames)"
      by (cases "preprocess_frame lib f") auto
    from cmp Cons.prems(2) have "\<forall>s\<in>set S. comparable lib p s" by blast
    then have new: "is_new_slide lib (slide_detector self) p S =
        Inr (\<forall>s\<in>set S. \<not> resembles lib (slide_detector self) p s)"
      by (rule is_new_slide_comparable)
    have sub: "set (admit lib (slide_detector self) S p) \<subseteq> set (held @ [p])"
      using Cons.prems(2) by (auto simp: admit_def)
    have step: "read_frames lib self (f # frames) S c =
        read_frames lib self frames (admit lib (slide_detector self) S p) (c + 1)"
      using True assms(1) p new
      by (cases "\<forall>s\<in>set S. \<not> resembles lib (slide_detector self) p s")
        (auto simp: admit_def)
    show ?thesis
      unfolding step Cons.IH [OF rest sub] using True p by simp
  qed
qed

lemma extract_slides_accepted:
  assumes "VideoCapture lib path = Some frames" "frame_skip self \<noteq> 0"
    and "library_accepts lib (sample (frame_skip self) 0 frames)"
  shows "extract_slides lib self path =
           Inr (foldl (admit lib (slide_detector self)) []
                  (map (\<lambda>x. projr (preprocess_frame lib x)) (sample (frame_skip self) 0 frames)))"
  using read_frames_accepted [OF assms(2), of lib "[]" 0 frames "[]"] assms(1,3)
  by (simp add: extract_slides_def library_accepts_def)

lemma admit_first: "admit lib det [] x = [x]"
  by (simp add: admit_def)

lemma foldl_admit_prefix: "prefix S (foldl (admit lib det) S xs)"
proof (induction xs arbitrary: S)
  case Nil
  then show ?case by simp
next
  case (Cons x xs)
  have "prefix S (admit lib det S x)" by (simp add: admit_def)
  then show ?case using Cons.IH [of "admit lib det S x"] by (auto intro: prefix_order.trans)
qed

lemma foldl_admit_keeps: "set S \<subseteq> set (foldl (admit lib det) S xs)"
  using foldl_admit_prefix [of S lib det xs] by (rule set_mono_prefix)

lemma foldl_admit_subset: "set (foldl (admit lib det) S xs) \<subseteq> set S \<union> set xs"
proof (induction xs arbitrary: S)
  case Nil
  then show ?case by simp
next
  case (Cons x xs)
  have "set (admit lib det S x) \<subseteq> set S \<union> {x}" by (auto simp: admit_def)
  with Cons.IH [of "admit lib det S x"] show ?case by auto
qed

lemma sample_subset: "set (sample k c xs) \<subseteq> set xs"
  by (induction xs arbitrary: c) auto

lemma sample_dvd_subset: "k' dvd k \<Longrightarrow> set (sample k c xs) \<subseteq> set (sample k' c xs)"
proof (induction xs arbitrary: c)
  case Nil
  then show ?case by simp
next
  case (Cons x xs)
  have "c mod k' = 0" if "c mod k = 0"
  proof -
    from that have "k dvd c" by (simp add: dvd_eq_mod_eq_0)
    with Cons.prems have "k' dvd c" by (rule dvd_trans)
    then show ?thesis by (simp add: dvd_eq_mod_eq_0)
  qed
  with Cons show ?case by auto
qed

lemma init_sel [simp]:
  "frame_skip (VideoProcessor_init t k d) = k"
  "slide_detector (VideoProcessor_init t k d) = SlideDetector_init t"
  by (simp_all add: VideoProcessor_init_def)

subsection \<open>Which frames are checked\<close>



subsection \<open>The invariant of the slide list\<close>

text \<open>
  C6. At every point of a run, that is after any number \<open>n\<close> of frames that the loop has
  got through, the slide list is kept apart: for every slide of the list, taken as the
  candidate, and every slide that stands before it, the scorer returns on the grey image
  of the candidate and the earlier slide, converted to grey and resized to the
  dimensions of that grey image where needed, and the score is at most the float
  \<open>1.0 - similarity_threshold\<close>. The list only grows at its end: it is the state from which
  the rest of the run continues, and a prefix of the result. No pair is compared again:
  the frame counters of the calls of \<open>is_new_slide\<close> increase strictly, so a frame is the
  candidate of one call at most, and a call scores a prefix of the list that it was
  handed, each stored slide once at most, and that list is a prefix of the slide list.
\<close>

theorem slides_kept_apart:
  assumes "read_frames_traced lib self (take n frames) [] 0 = (Inr (S\<^sub>n, c\<^sub>n), calls)"
  shows "kept_apart lib (slide_detector self) S\<^sub>n \<and>
         read_frames lib self (take n frames) [] 0 = Inr (S\<^sub>n, c\<^sub>n) \<and>
         read_frames lib self frames [] 0 = read_frames lib self (drop n frames) S\<^sub>n c\<^sub>n \<and>
         (\<forall>S c. read_frames lib self frames [] 0 = Inr (S, c) \<longrightarrow> prefix S\<^sub>n S) \<and>
         sorted_wrt (<) (map fst calls) \<and>
         (\<forall>(c, held, scored)\<in>set calls. prefix scored held \<and> prefix held S\<^sub>n)"
proof -
  have run: "read_frames lib self (take n frames) [] 0 = Inr (S\<^sub>n, c\<^sub>n)"
    using read_frames_traced_fst [of lib self "take n frames" "[]" 0] assms by simp
  have split: "read_frames lib self frames [] 0 = read_frames lib self (drop n frames) S\<^sub>n c\<^sub>n"
    using read_frames_append [of lib self "take n frames" "drop n frames" "[]" 0] run
    by simp
  have "kept_apart lib (slide_detector self) []" by (simp add: kept_apart_def)
  with run have apart: "kept_apart lib (slide_detector self) S\<^sub>n"
    by (rule read_frames_kept_apart)
  have grow: "prefix S\<^sub>n S" if "read_frames lib self frames [] 0 = Inr (S, c)" for S c
    using that unfolding split by (rule read_frames_grows)
  from traced_counts [OF assms] have once: "sorted_wrt (<) (map fst calls)" ..
  note held = traced_held [OF assms]
  from apart run split grow once held show ?thesis by blast
qed

subsection \<open>The first frame\<close>

text \<open>
  C10, as the code has it. When the video opens and delivers at least one frame and the
  stride is not zero, \<open>extract_slides\<close> never returns the empty list: when it returns, the
  first slide is the preprocessed frame 0. It returns, with that slide first, whenever
  no library call raises on the sampled frames.
\<close>

theorem first_frame_is_a_slide:
  assumes "VideoCapture lib path = Some frames" "frames \<noteq> []" "frame_skip self \<noteq> 0"
  shows "extract_slides lib self path \<noteq> Inr [] \<and>
         (\<forall>S. extract_slides lib self path = Inr S \<longrightarrow>
            preprocess_frame lib (hd frames) = Inr (hd S)) \<and>
         (library_accepts lib (sample (frame_skip self) 0 frames) \<longrightarrow>
            (\<exists>later. extract_slides lib self path =
               Inr (projr (preprocess_frame lib (hd frames)) # later)))"
proof -
  obtain f fs where frames: "frames = f # fs" using assms(2) by (cases frames) auto
  have ret: "preprocess_frame lib f = Inr (hd S) \<and> S \<noteq> []"
    if "extract_slides lib self path = Inr S" for S
  proof -
    from that obtain c where run: "read_frames lib self (f # fs) [] 0 = Inr (S, c)"
      using assms(1) by (auto simp: extract_slides_def frames split: sum.splits)
    then obtain p where p: "preprocess_frame lib f = Inr p"
      using assms(3) by (cases "preprocess_frame lib f") auto
    with run assms(3) have "read_frames lib self fs [p] 1 = Inr (S, c)"
      by (simp add: is_new_slide_def)
    then have "prefix [p] S" by (rule read_frames_grows)
    then show ?thesis using p by (auto simp: prefix_def)
  qed
  have acc: "\<exists>later. extract_slides lib self path = Inr (projr (preprocess_frame lib f) # later)"
    if "library_accepts lib (sample (frame_skip self) 0 frames)"
  proof -
    let ?p = "projr (preprocess_frame lib f)"
    let ?rest = "map (\<lambda>x. projr (preprocess_frame lib x)) (sample (frame_skip self) 1 fs)"
    have "prefix [?p] (foldl (admit lib (slide_detector self)) [?p] ?rest)"
      by (rule foldl_admit_prefix)
    then obtain later where
      "foldl (admit lib (slide_detector self)) [?p] ?rest = ?p # later"
      by (auto simp: prefix_def)
    then show ?thesis
      using extract_slides_accepted [OF assms(1,3) that] by (simp add: frames admit_first)
  qed
  from ret acc show ?thesis by (auto simp: frames)
qed

subsection \<open>The configuration\<close>

text \<open>
  C2, as the code has it. Neither the constructor nor \<open>extract_slides\<close> checks the
  configuration. With the stride 0 the remainder raises \<open>ZeroDivisionError\<close> at the first
  frame read, and a video without frames yields the empty list. With any other stride,
  negative ones included, and any threshold, inside \<open>(0, 1]\<close> or not, the run returns the
  slides admitted from the sampled frames, whenever no library call raises on them.
\<close>

theorem extract_slides_any_config:
  assumes "VideoCapture lib path = Some frames"
  shows "(k = 0 \<longrightarrow>
            extract_slides lib (VideoProcessor_init t k d) path =
              (if frames = [] then Inr [] else Inl ZeroDivisionError)) \<and>
         (k \<noteq> 0 \<and> library_accepts lib (sample k 0 frames) \<longrightarrow>
            extract_slides lib (VideoProcessor_init t k d) path =
              Inr (foldl (admit lib (SlideDetector_init t)) []
                     (map (\<lambda>x. projr (preprocess_frame lib x)) (sample k 0 frames))))"
proof (intro conjI impI)
  assume "k = 0"
  then show "extract_slides lib (VideoProcessor_init t k d) path =
      (if frames = [] then Inr [] else Inl ZeroDivisionError)"
    using assms by (simp add: extract_slides_def read_frames_zero)
next
  assume "k \<noteq> 0 \<and> library_accepts lib (sample k 0 frames)"
  then show "extract_slides lib (VideoProcessor_init t k d) path =
      Inr (foldl (admit lib (SlideDetector_init t)) []
             (map (\<lambda>x. projr (preprocess_frame lib x)) (sample k 0 frames)))"
    using extract_slides_accepted [OF assms, of "VideoProcessor_init t k d"] by simp
qed

subsection \<open>A video without motion\<close>

lemma accepts_same:
  assumes "preprocess_frame lib f = Inr p" "comparable lib p p"
  shows "set held \<subseteq> {p} \<Longrightarrow> \<forall>x\<in>set xs. x = f \<Longrightarrow> accepts lib held xs"
proof (induction xs arbitrary: held)
  case Nil
  then show ?case by simp
next
  case (Cons x xs)
  then have "x = f" by simp
  moreover have "accepts lib (held @ [p]) xs"
    using Cons.prems by (intro Cons.IH) auto
  ultimately show ?case using assms Cons.prems(1) by auto
qed

lemma foldl_admit_same:
  assumes "resembles lib det p p" "\<forall>x\<in>set xs. x = p"
  shows "foldl (admit lib det) [p] xs = [p]"
  using assms(2)
proof (induction xs)
  case Nil
  then show ?case by simp
next
  case (Cons x xs)
  then have "admit lib det [p] x = [p]"
    using assms(1) by (simp add: admit_def)
  with Cons show ?case by simp
qed

text \<open>
  C5, as the code has it. Let every frame of the video be the same image, let the video
  have at least one frame, let the threshold be above \<open>1 / 2 ^ 54\<close> and the stride not zero,
  and let the library calls return on that frame: the preprocessed frame is a colour
  image, and the scorer gives 1.0 for its grey image against itself. Then
  \<open>extract_slides\<close> returns exactly one slide, the preprocessed first frame.
\<close>

theorem still_video_one_slide:
  assumes "VideoCapture lib path = Some frames" "frames \<noteq> []" "\<forall>x\<in>set frames. x = f"
    and "1 / 2 ^ 54 < t" "k \<noteq> 0"
    and "preprocess_frame lib f = Inr p" "length (shape p) = 3"
    and "cvtColor_BGR2GRAY lib p = Inr g" "ssim lib g g = Inr (1, m)"
  shows "extract_slides lib (VideoProcessor_init t k d) path = Inr [p]"
proof -
  let ?self = "VideoProcessor_init t k d"
  obtain fs where frames: "frames = f # fs" using assms(2,3) by (cases frames) auto
  have "channels p \<noteq> None" using assms(7) by (simp add: length_shape_3)
  then obtain ch where colour: "channels p = Some ch" by auto
  have score: "matched_score lib g p = Inr 1"
    using colour assms(8,9) by (simp add: matched_score_def grey_version_def fitted_def)
  have cmp: "comparable lib p p" using assms(8) score by (simp add: comparable_def)
  have "float_sub 1 t < 1" using assms(4) by (rule float_sub_one_below_one)
  then have like: "resembles lib (SlideDetector_init t) p p"
    using assms(8) score by (simp add: resembles_def SlideDetector_init_def)
  have all: "\<forall>x\<in>set (sample k 0 frames). x = f"
    using assms(3) sample_subset [of k 0 frames] by blast
  have "accepts lib [] (sample k 0 frames)"
    using all by (intro accepts_same [OF assms(6) cmp]) simp_all
  then have acc: "library_accepts lib (sample (frame_skip ?self) 0 frames)"
    by (simp add: library_accepts_def)
  have "\<forall>x\<in>set (map (\<lambda>x. projr (preprocess_frame lib x)) (sample k 1 fs)). x = p"
    using assms(3,6) sample_subset [of k 1 fs] by (auto simp: frames)
  then have "foldl (admit lib (SlideDetector_init t)) [p]
               (map (\<lambda>x. projr (preprocess_frame lib x)) (sample k 1 fs)) = [p]"
    by (rule foldl_admit_same [OF like])
  then show ?thesis
    using extract_slides_accepted [OF assms(1) _ acc] assms(5,6)
    by (simp add: frames admit_first)
qed

subsection \<open>The number of slides and the stride\<close>

lemma foldl_admit_covers:
  assumes "\<forall>x\<in>set xs. resembles lib det x x"
  shows "\<forall>x\<in>set xs. \<exists>g\<in>set (foldl (admit lib det) S xs). resembles lib det x g"
  using assms
proof (induction xs arbitrary: S)
  case Nil
  then show ?case by simp
next
  case (Cons x xs)
  have "\<exists>g\<in>set (admit lib det S x). resembles lib det x g"
    using Cons.prems by (auto simp: admit_def)
  then have "\<exists>g\<in>set (foldl (admit lib det) (admit lib det S x) xs). resembles lib det x g"
    using foldl_admit_keeps [of "admit lib det S x" lib det xs] by blast
  with Cons show ?case by simp
qed

lemma admit_apart:
  assumes "\<forall>j<length S. \<forall>i<j. \<not> resembles lib det (S ! j) (S ! i)"
  shows "\<forall>j<length (admit lib det S x). \<forall>i<j.
           \<not> resembles lib det (admit lib det S x ! j) (admit lib det S x ! i)"
proof (cases "\<forall>s\<in>set S. \<not> resembles lib det x s")
  case False
  then have "admit lib det S x = S" by (auto simp: admit_def)
  then show ?thesis using assms by simp
next
  case True
  then have adm: "admit lib det S x = S @ [x]" by (simp add: admit_def)
  show ?thesis
    unfolding adm
  proof (intro allI impI)
    fix j i assume j: "j < length (S @ [x])" and i: "i < j"
    show "\<not> resembles lib det ((S @ [x]) ! j) ((S @ [x]) ! i)"
    proof (cases "j < length S")
      case less: True
      with i have "(S @ [x]) ! j = S ! j" "(S @ [x]) ! i = S ! i"
        by (simp_all add: nth_append)
      with assms less i show ?thesis by simp
    next
      case False
      with j have jl: "j = length S" by simp
      with i have "(S @ [x]) ! j = x" "(S @ [x]) ! i = S ! i" "S ! i \<in> set S"
        by (simp_all add: nth_append)
      with True show ?thesis by simp
    qed
  qed
qed

lemma foldl_admit_apart:
  "\<forall>j<length S. \<forall>i<j. \<not> resembles lib det (S ! j) (S ! i) \<Longrightarrow>
     \<forall>j<length (foldl (admit lib det) S xs). \<forall>i<j.
       \<not> resembles lib det (foldl (admit lib det) S xs ! j) (foldl (admit lib det) S xs ! i)"
proof (induction xs arbitrary: S)
  case Nil
  then show ?case by simp
next
  case (Cons x xs)
  from Cons.IH [OF admit_apart [OF Cons.prems, of x]] show ?case by simp
qed

lemma apart_distinct:
  assumes "\<forall>j<length S. \<forall>i<j. \<not> resembles lib det (S ! j) (S ! i)"
    and "\<forall>x\<in>set S. resembles lib det x x"
  shows "distinct S"
proof (rule ccontr)
  assume "\<not> distinct S"
  then obtain i j where ij: "i < j" "j < length S" "S ! i = S ! j"
    by (metis distinct_conv_nth linorder_neqE_nat)
  have "\<not> resembles lib det (S ! j) (S ! i)"
    using assms(1) ij(1,2) by simp
  moreover have "resembles lib det (S ! j) (S ! j)"
    using assms(2) ij(2) by simp
  ultimately show False using ij(3) by simp
qed

lemma greedy_count_mono:
  assumes sub: "set xs \<subseteq> set ys" "set ys \<subseteq> F"
    and refl: "\<forall>x\<in>F. resembles lib det x x"
    and sym: "\<forall>x\<in>F. \<forall>y\<in>F. resembles lib det x y \<longrightarrow> resembles lib det y x"
    and trans: "\<forall>x\<in>F. \<forall>y\<in>F. \<forall>z\<in>F.
        resembles lib det x y \<longrightarrow> resembles lib det y z \<longrightarrow> resembles lib det x z"
  shows "length (foldl (admit lib det) [] xs) \<le> length (foldl (admit lib det) [] ys)"
proof -
  let ?G = "foldl (admit lib det) [] xs" and ?H = "foldl (admit lib det) [] ys"
  have G_xs: "set ?G \<subseteq> set xs" and H_ys: "set ?H \<subseteq> set ys"
    using foldl_admit_subset [of lib det "[]"] by auto
  have G_F: "set ?G \<subseteq> F" and H_F: "set ?H \<subseteq> F"
    using G_xs H_ys sub by auto
  have nres: "\<not> resembles lib det (?G ! j) (?G ! i)" if "i < j" "j < length ?G" for i j
    using foldl_admit_apart [of "[]" lib det xs] that by simp
  have nresH: "\<forall>j<length ?H. \<forall>i<j. \<not> resembles lib det (?H ! j) (?H ! i)"
    using foldl_admit_apart [of "[]" lib det ys] by simp
  have dG: "distinct ?G"
    using nres G_F refl by (intro apart_distinct) auto
  have dH: "distinct ?H"
    using nresH H_F refl by (intro apart_distinct) auto
  have "\<forall>x\<in>set ys. \<exists>h\<in>set ?H. resembles lib det x h"
    using sub(2) refl by (intro foldl_admit_covers) auto
  then have "\<forall>g\<in>set ?G. \<exists>h. h \<in> set ?H \<and> resembles lib det g h"
    using G_xs sub(1) by blast
  then obtain rep where rep: "\<forall>g\<in>set ?G. rep g \<in> set ?H \<and> resembles lib det g (rep g)"
    by (rule bchoice [THEN exE])
  have "inj_on rep (set ?G)"
  proof (rule inj_onI)
    fix a b assume a: "a \<in> set ?G" and b: "b \<in> set ?G" and eq: "rep a = rep b"
    have aF: "a \<in> F" and bF: "b \<in> F" and hF: "rep b \<in> F"
      using a b rep G_F H_F by auto
    have "resembles lib det a (rep b)" using rep a eq by metis
    moreover have "resembles lib det (rep b) b" using rep b sym bF hF by blast
    ultimately have ab: "resembles lib det a b" using trans aF bF hF by blast
    then have ba: "resembles lib det b a" using sym aF bF by blast
    show "a = b"
    proof (rule ccontr)
      assume ne: "a \<noteq> b"
      obtain i j where i: "i < length ?G" "?G ! i = a" and j: "j < length ?G" "?G ! j = b"
        using a b by (auto simp: in_set_conv_nth)
      with ne have "i \<noteq> j" by auto
      then consider "i < j" | "j < i" by (rule linorder_neqE_nat)
      then show False
      proof cases
        case 1
        from nres [OF 1 j(1)] i(2) j(2) ba show False by simp
      next
        case 2
        from nres [OF 2 i(1)] i(2) j(2) ab show False by simp
      qed
    qed
  qed
  moreover have "rep ` set ?G \<subseteq> set ?H" using rep by auto
  ultimately have "card (set ?G) \<le> card (set ?H)"
    by (rule card_inj_on_le) simp
  then show ?thesis using dG dH by (simp add: distinct_card)
qed

lemma accepts_all:
  assumes "\<forall>x\<in>P. \<forall>y\<in>P. comparable lib x y"
  shows "\<forall>f\<in>set xs. \<not> isl (preprocess_frame lib f) \<Longrightarrow>
         (\<lambda>x. projr (preprocess_frame lib x)) ` set xs \<subseteq> P \<Longrightarrow> set held \<subseteq> P \<Longrightarrow>
         accepts lib held xs"
proof (induction xs arbitrary: held)
  case Nil
  then show ?case by simp
next
  case (Cons x xs)
  from Cons.prems(1) obtain p where p: "preprocess_frame lib x = Inr p"
    by (cases "preprocess_frame lib x") auto
  with Cons.prems(2) have pP: "p \<in> P" by auto
  have "accepts lib (held @ [p]) xs"
    using Cons.prems pP by (intro Cons.IH) auto
  moreover have "\<forall>s\<in>set held. comparable lib p s"
    using assms pP Cons.prems(3) by blast
  ultimately show ?case using p by simp
qed

text \<open>
  C4, as the code has it. Let the video open, let both strides be at least 1 and let
  \<open>k'\<close> divide \<open>k\<close>. Let no library call raise on the frames of the video: every frame is
  preprocessed, and any two preprocessed frames are compared without an exception. Let
  resemblance at the given threshold be reflexive, symmetric and transitive on the
  preprocessed frames of the video. Then both runs return, and stride \<open>k'\<close> yields at
  least as many slides as stride \<open>k\<close>.
\<close>

theorem slide_count_monotone_on_classes:
  assumes "VideoCapture lib path = Some frames"
    and "1 \<le> k'" "1 \<le> k" "k' dvd k"
    and "\<forall>f\<in>set frames. \<not> isl (preprocess_frame lib f)"
    and "\<forall>x\<in>(\<lambda>f. projr (preprocess_frame lib f)) ` set frames.
         \<forall>y\<in>(\<lambda>f. projr (preprocess_frame lib f)) ` set frames. comparable lib x y"
    and "\<forall>x\<in>(\<lambda>f. projr (preprocess_frame lib f)) ` set frames.
           resembles lib (SlideDetector_init t) x x"
    and "\<forall>x\<in>(\<lambda>f. projr (preprocess_frame lib f)) ` set frames.
         \<forall>y\<in>(\<lambda>f. projr (preprocess_frame lib f)) ` set frames.
           resembles lib (SlideDetector_init t) x y \<longrightarrow> resembles lib (SlideDetector_init t) y x"
    and "\<forall>x\<in>(\<lambda>f. projr (preprocess_frame lib f)) ` set frames.
         \<forall>y\<in>(\<lambda>f. projr (preprocess_frame lib f)) ` set frames.
         \<forall>z\<in>(\<lambda>f. projr (preprocess_frame lib f)) ` set frames.
           resembles lib (SlideDetector_init t) x y \<longrightarrow> resembles lib (SlideDetector_init t) y z
             \<longrightarrow> resembles lib (SlideDetector_init t) x z"
  shows "\<exists>S S'. extract_slides lib (VideoProcessor_init t k d) path = Inr S \<and>
                extract_slides lib (VideoProcessor_init t k' d) path = Inr S' \<and>
                length S \<le> length S'"
proof -
  let ?det = "SlideDetector_init t"
  let ?pre = "\<lambda>f. projr (preprocess_frame lib f)"
  let ?P = "?pre ` set frames"
  let ?xs = "map ?pre (sample k 0 frames)"
  let ?ys = "map ?pre (sample k' 0 frames)"
  have acc: "library_accepts lib (sample j 0 frames)" for j
    unfolding library_accepts_def
    using assms(5) sample_subset [of j 0 frames]
    by (intro accepts_all [OF assms(6)]) auto
  have "set ?xs \<subseteq> set ?ys"
    using sample_dvd_subset [OF assms(4), of 0 frames] by auto
  moreover have "set ?ys \<subseteq> ?P"
    using sample_subset [of k' 0 frames] by auto
  ultimately have "length (foldl (admit lib ?det) [] ?xs) \<le> length (foldl (admit lib ?det) [] ?ys)"
    using assms(7-9) by (rule greedy_count_mono)
  moreover have "extract_slides lib (VideoProcessor_init t k d) path =
      Inr (foldl (admit lib ?det) [] ?xs)"
    using extract_slides_accepted [OF assms(1), of "VideoProcessor_init t k d"] assms(3) acc
    by simp
  moreover have "extract_slides lib (VideoProcessor_init t k' d) path =
      Inr (foldl (admit lib ?det) [] ?ys)"
    using extract_slides_accepted [OF assms(1), of "VideoProcessor_init t k' d"] assms(2) acc
    by simp
  ultimately show ?thesis by simp
qed

subsection \<open>Evaluating the small library\<close>

lemma test_cv_sel [simp]:
  "cvtColor_BGR2GRAY (test_cv vs) = test_gray"
  "resize (test_cv vs) = test_resize"
  "ssim (test_cv vs) = test_ssim"
  "VideoCapture (test_cv vs) = vs"
  by (simp_all add: test_cv_def)

lemma threshold_init [simp]: "SlideDetector.similarity_threshold (SlideDetector_init t) = t"
  by (simp add: SlideDetector_init_def)

lemma limit_default: "float_sub 1 (3 / 20) = 7656119366529843 / 9007199254740992"
  by code_simp

lemma limit_zero: "float_sub 1 0 = 1"
  by code_simp

lemma limit_large: "float_sub 1 (3 / 2) = - (1 / 2)"
  by code_simp

lemma limit_tiny: "float_sub 1 (1 / 1152921504606846976) = 1"
  by code_simp

lemma scaled_size: "nat \<lfloor>float_mul 1122 (float_div 1024 1122)\<rfloor> = 1023"
  "nat \<lfloor>float_mul 561 (float_div 1024 1122)\<rfloor> = 511"
  by code_simp+

lemma preprocess_frame_rounds:
  "preprocess_frame lib (Image 561 1122 (Some 3) px) =
     resize lib (Image 561 1122 (Some 3) px) (1023, 511)"
  by (simp add: preprocess_frame_def shape_def scaled_size)

lemma scaled_thin: "float_mul 1 (float_div 1024 2000) < 1"
  by code_simp

lemma preprocess_thin [simp]:
  "preprocess_frame (test_cv vs) thin = Inl (cv2_error ''resize: empty source or target size'')"
  by (simp add: preprocess_frame_def thin_def shape_def scaled_thin test_resize_def Let_def)

lemma default_threshold_literal: "float_sub 1 (round_double (3 / 20)) = float_sub 1 (3 / 20)"
  by code_simp

lemma test_gray_solid [simp]: "test_gray (solid v) = Inr (Image 7 7 None (replicate 49 v))"
proof -
  have "sum_list (take 3 (drop (i * 3) (replicate 147 v))) div 3 = v" if "i < 49" for i
  proof -
    from that have "min 3 (147 - i * 3) = 3" by simp
    then show ?thesis by (simp add: sum_list_replicate)
  qed
  then have "map (\<lambda>i. sum_list (take 3 (drop (i * 3) (replicate 147 v))) div 3) [0..<49] =
      map (\<lambda>i. v) [0..<49]"
    by (intro map_cong) simp_all
  then show ?thesis by (simp add: test_gray_def solid_def map_replicate_const)
qed

lemma test_gray_dot [simp]: "test_gray (dot v) = Inr (Image (Suc 0) (Suc 0) None [v])"
proof -
  have "(v + (v + v)) div 3 = v" by simp
  then show ?thesis by (simp add: test_gray_def dot_def)
qed

lemma shape_solid [simp]: "shape (solid v) = [7, 7, 3]" "channels (solid v) = Some 3"
  by (simp_all add: solid_def shape_def)

lemma shape_dot [simp]: "shape (dot v) = [1, 1, 3]" "channels (dot v) = Some 3"
  by (simp_all add: dot_def shape_def)

lemma solid_eq [simp]: "solid a = solid b \<longleftrightarrow> a = b"
  by (simp add: solid_def replicate_eq_replicate)

lemma preprocess_solid [simp]: "preprocess_frame lib (solid v) = Inr (solid v)"
  by (simp add: preprocess_frame_def)

lemma preprocess_dot [simp]: "preprocess_frame lib (dot v) = Inr (dot v)"
  by (simp add: preprocess_frame_def)

lemma matched_score_solid [simp]:
  "matched_score (test_cv vs) (Image 7 7 None (replicate 49 a)) (solid b) =
     Inr (1 - \<bar>real a - real b\<bar> / 255)"
  by (simp add: matched_score_def grey_version_def fitted_def shape_def test_ssim_def
      Let_def sum_list_replicate field_simps)

lemma matched_score_dot [simp]:
  "matched_score (test_cv vs) (Image (Suc 0) (Suc 0) None [a]) (dot b) =
     Inl (ValueError ''win_size exceeds image extent.'')"
  by (simp add: matched_score_def grey_version_def fitted_def shape_def test_ssim_def)

lemma slide_score_solid [simp]:
  "slide_score (test_cv vs) (Image 7 7 None (replicate 49 a)) (solid b) =
     Inr (1 - \<bar>real a - real b\<bar> / 255)"
  by (simp add: slide_score_matched)

lemma slide_score_dot [simp]:
  "slide_score (test_cv vs) (Image (Suc 0) (Suc 0) None [a]) (dot b) =
     Inl (ValueError ''win_size exceeds image extent.'')"
  by (simp add: slide_score_matched)

lemma resembles_solid [simp]:
  "resembles (test_cv vs) (SlideDetector_init t) (solid a) (solid b) \<longleftrightarrow>
     float_sub 1 t < 1 - \<bar>real a - real b\<bar> / 255"
  by (simp add: resembles_def)

lemma comparable_solid [simp]: "comparable (test_cv vs) (solid a) (solid b)"
  by (simp add: comparable_def)

lemma is_new_slide_Nil [simp]:
  "is_new_slide lib det f [] = Inr True"
  "is_new_slide_scored lib det f [] = (Inr True, [])"
  by (simp_all add: is_new_slide_def is_new_slide_scored_def)

lemma is_new_slide_solid [simp]:
  "is_new_slide (test_cv vs) (SlideDetector_init t) (solid a) S =
     (if S = [] then Inr True
      else compare_slides (test_cv vs) (SlideDetector_init t) (Image 7 7 None (replicate 49 a)) S)"
  by (simp add: is_new_slide_def)

lemma is_new_slide_scored_solid [simp]:
  "is_new_slide_scored (test_cv vs) (SlideDetector_init t) (solid a) S =
     (if S = [] then (Inr True, [])
      else compare_slides_scored (test_cv vs) (SlideDetector_init t)
             (Image 7 7 None (replicate 49 a)) S)"
  by (simp add: is_new_slide_scored_def)

lemma is_new_slide_dot [simp]:
  "is_new_slide (test_cv vs) det (dot a) (dot b # rest) =
     Inl (ValueError ''win_size exceeds image extent.'')"
  by (simp add: is_new_slide_def)

lemma test_videos_simps [simp]:
  "test_videos ''still.mp4'' = Some [solid 10, solid 10, solid 10]"
  "test_videos ''talk.mp4'' = Some [solid 10, solid 10, solid 10, solid 200]"
  "test_videos ''fade.mp4'' = Some [solid 0, solid 100, solid 70, solid 100, solid 130]"
  "test_videos ''tiny.mp4'' = Some [dot 10, dot 200]"
  "test_videos ''thin.mp4'' = Some [thin, thin]"
  "test_videos ''empty.mp4'' = Some []"
  by (simp_all add: test_videos_def)

subsection \<open>Saving\<close>

lemma save_slide_result:
  "fst (save_slide imwrite slide p disk) =
     (case fst (imwrite p slide disk) of Inl e \<Rightarrow> Inl e | Inr written \<Rightarrow> Inr ())"
  "snd (save_slide imwrite slide p disk) = snd (imwrite p slide disk)"
  by (simp_all add: save_slide_def split: prod.split sum.split)

lemma save_slides_recording:
  "save_slides imwrite dir i slides disk =
     (fst (save_slides (recording imwrite) dir i slides (disk, calls)),
      fst (snd (save_slides (recording imwrite) dir i slides (disk, calls))))"
proof (induction slides arbitrary: i disk calls)
  case Nil
  then show ?case by simp
next
  case (Cons slide rest)
  obtain answer disk' where w: "imwrite (path_join dir (slide_name i)) slide disk = (answer, disk')"
    by (cases "imwrite (path_join dir (slide_name i)) slide disk")
  show ?case
  proof (cases answer)
    case (Inl e)
    with w show ?thesis by (simp add: save_slide_def recording_def)
  next
    case (Inr written)
    with w Cons.IH [of "i + 1" disk' "calls @ [(path_join dir (slide_name i), Inr written)]"]
    show ?thesis by (simp add: save_slide_def recording_def)
  qed
qed

lemma save_slides_calls:
  "\<exists>new. snd (snd (save_slides (recording imwrite) dir i slides (disk, calls))) = calls @ new \<and>
     map fst new =
       take (length new) (map (\<lambda>j. path_join dir (slide_name j)) [i..<i + length slides]) \<and>
     (\<forall>c\<in>set (butlast new). \<not> isl (snd c)) \<and>
     fst (save_slides (recording imwrite) dir i slides (disk, calls)) =
       (if new \<noteq> [] \<and> isl (snd (last new)) then Inl (projl (snd (last new))) else Inr ()) \<and>
     (\<not> isl (fst (save_slides (recording imwrite) dir i slides (disk, calls)))
        \<longrightarrow> length new = length slides)"
proof (induction slides arbitrary: i disk calls)
  case Nil
  then show ?case by simp
next
  case (Cons slide rest)
  let ?p = "path_join dir (slide_name i)"
  obtain answer disk' where w: "imwrite ?p slide disk = (answer, disk')"
    by (cases "imwrite ?p slide disk")
  have paths: "map (\<lambda>j. path_join dir (slide_name j)) [i..<i + length (slide # rest)] =
      ?p # map (\<lambda>j. path_join dir (slide_name j)) [i + 1..<(i + 1) + length rest]"
    by (simp add: upt_conv_Cons del: upt_Suc)
  show ?case
  proof (cases answer)
    case (Inl e)
    with w have "save_slides (recording imwrite) dir i (slide # rest) (disk, calls) =
        (Inl e, disk', calls @ [(?p, Inl e)])"
      by (simp add: save_slide_def recording_def)
    then show ?thesis
      unfolding paths by (intro exI [of _ "[(?p, Inl e)]"]) simp
  next
    case (Inr written)
    let ?calls = "calls @ [(?p, Inr written)]"
    from Inr w have step: "save_slides (recording imwrite) dir i (slide # rest) (disk, calls) =
        save_slides (recording imwrite) dir (i + 1) rest (disk', ?calls)"
      by (simp add: save_slide_def recording_def)
    from Cons.IH [of "i + 1" disk' ?calls] obtain new where
      new: "snd (snd (save_slides (recording imwrite) dir (i + 1) rest (disk', ?calls))) =
          ?calls @ new"
        "map fst new = take (length new)
          (map (\<lambda>j. path_join dir (slide_name j)) [i + 1..<(i + 1) + length rest])"
        "\<forall>c\<in>set (butlast new). \<not> isl (snd c)"
        "fst (save_slides (recording imwrite) dir (i + 1) rest (disk', ?calls)) =
          (if new \<noteq> [] \<and> isl (snd (last new)) then Inl (projl (snd (last new))) else Inr ())"
        "\<not> isl (fst (save_slides (recording imwrite) dir (i + 1) rest (disk', ?calls)))
          \<longrightarrow> length new = length rest"
      by blast
    show ?thesis
      unfolding step paths
      using new by (intro exI [of _ "(?p, Inr written) # new"]) (simp split: if_splits)
  qed
qed

lemma slide_names:
  "slide_name 0 = ''slide_001.jpg''"
  "slide_name (Suc 0) = ''slide_002.jpg''"
  "slide_name (Suc (Suc 0)) = ''slide_003.jpg''"
  by (simp_all add: slide_name_def decimal.simps Let_def numeral_2_eq_2 numeral_3_eq_3)

lemma pixels_solid [simp]: "pixels (solid v) \<noteq> []"
  by (simp add: solid_def)

text \<open>
  C8, as the code has it. \<open>save_slide\<close> raises what the writer raises and returns \<open>None\<close>
  otherwise, whether the writer answered \<open>True\<close> or \<open>False\<close>; it leaves the disk as the
  writer left it. The saving loop calls the writer for \<open>slide_001.jpg\<close>, \<open>slide_002.jpg\<close>
  and so on, in order. An answer \<open>False\<close> does not end the loop; an exception of the writer
  does, and it is what the loop raises. A loop that returns has called the writer once
  for every slide.
\<close>

theorem save_slide_returns_none:
  "fst (save_slide imwrite slide p disk) =
     (case fst (imwrite p slide disk) of Inl e \<Rightarrow> Inl e | Inr written \<Rightarrow> Inr ()) \<and>
   snd (save_slide imwrite slide p disk) = snd (imwrite p slide disk) \<and>
   (\<exists>outcome disk' calls.
      save_slides (recording imwrite) dir 0 slides (disk, []) = (outcome, disk', calls) \<and>
      save_slides imwrite dir 0 slides disk = (outcome, disk') \<and>
      map fst calls =
        take (length calls) (map (\<lambda>j. path_join dir (slide_name j)) [0..<length slides]) \<and>
      (\<forall>c\<in>set (butlast calls). \<not> isl (snd c)) \<and>
      outcome =
        (if calls \<noteq> [] \<and> isl (snd (last calls)) then Inl (projl (snd (last calls)))
         else Inr ()) \<and>
      (\<not> isl outcome \<longrightarrow> length calls = length slides))"
proof -
  obtain outcome disk' calls where
    run: "save_slides (recording imwrite) dir 0 slides (disk, []) = (outcome, disk', calls)"
    by (cases "save_slides (recording imwrite) dir 0 slides (disk, [])") auto
  have plain: "save_slides imwrite dir 0 slides disk = (outcome, disk')"
    using save_slides_recording [of imwrite dir 0 slides disk "[]"] run by simp
  from save_slides_calls [of imwrite dir 0 slides disk "[]"] run
  have calls: "map fst calls =
        take (length calls) (map (\<lambda>j. path_join dir (slide_name j)) [0..<length slides])"
      "\<forall>c\<in>set (butlast calls). \<not> isl (snd c)"
      "outcome =
        (if calls \<noteq> [] \<and> isl (snd (last calls)) then Inl (projl (snd (last calls)))
         else Inr ())"
      "\<not> isl outcome \<longrightarrow> length calls = length slides"
    by simp_all
  have "save_slides (recording imwrite) dir 0 slides (disk, []) = (outcome, disk', calls) \<and>
      save_slides imwrite dir 0 slides disk = (outcome, disk') \<and>
      map fst calls =
        take (length calls) (map (\<lambda>j. path_join dir (slide_name j)) [0..<length slides]) \<and>
      (\<forall>c\<in>set (butlast calls). \<not> isl (snd c)) \<and>
      outcome =
        (if calls \<noteq> [] \<and> isl (snd (last calls)) then Inl (projl (snd (last calls)))
         else Inr ()) \<and>
      (\<not> isl outcome \<longrightarrow> length calls = length slides)"
    by (rule conjI [OF run conjI [OF plain conjI [OF calls(1) conjI [OF calls(2)
          conjI [OF calls(3) calls(4)]]]]])
  then have "\<exists>outcome disk' calls.
      save_slides (recording imwrite) dir 0 slides (disk, []) = (outcome, disk', calls) \<and>
      save_slides imwrite dir 0 slides disk = (outcome, disk') \<and>
      map fst calls =
        take (length calls) (map (\<lambda>j. path_join dir (slide_name j)) [0..<length slides]) \<and>
      (\<forall>c\<in>set (butlast calls). \<not> isl (snd c)) \<and>
      outcome =
        (if calls \<noteq> [] \<and> isl (snd (last calls)) then Inl (projl (snd (last calls)))
         else Inr ()) \<and>
      (\<not> isl outcome \<longrightarrow> length calls = length slides)"
    by (intro exI)
  with save_slide_result [of imwrite slide p disk] show ?thesis by (intro conjI)
qed

lemma save_run:
  "fst (save_slides (recording (test_imwrite [''out/slide_002.jpg''])) ''out'' 0
       [solid 10, solid 200, solid 70] (Map.empty, [])) = Inr ()"
  "snd (snd (save_slides (recording (test_imwrite [''out/slide_002.jpg''])) ''out'' 0
       [solid 10, solid 200, solid 70] (Map.empty, []))) =
     [(''out/slide_001.jpg'', Inr True), (''out/slide_002.jpg'', Inr False),
      (''out/slide_003.jpg'', Inr True)]"
  by (simp_all add: save_slide_def recording_def test_imwrite_def slide_names path_join_def)

text \<open>
  A write that fails with the answer \<open>False\<close> is not signalled: \<open>save_slide\<close> returns \<open>None\<close>
  as it does after a write that succeeds. A write that fails with an exception ends
  the loop: the slide after it is never written.
\<close>

theorem save_slide_silent_failure_counterexample:
  "fst (test_imwrite [''out/slide_002.jpg''] ''out/slide_002.jpg'' (solid 200) Map.empty) =
     Inr False \<and>
   fst (save_slide (test_imwrite [''out/slide_002.jpg'']) (solid 200) ''out/slide_002.jpg''
          Map.empty) = Inr () \<and>
   fst (save_slides (recording (test_imwrite [])) ''out'' 0
          [solid 10, Image 0 0 (Some 3) [], solid 70] (Map.empty, [])) =
     Inl (cv2_error ''imwrite: empty image'') \<and>
   map fst (snd (snd (save_slides (recording (test_imwrite [])) ''out'' 0
          [solid 10, Image 0 0 (Some 3) [], solid 70] (Map.empty, [])))) =
     [''out/slide_001.jpg'', ''out/slide_002.jpg'']"
  by (simp add: save_slide_def recording_def test_imwrite_def slide_names path_join_def)

subsection \<open>Symmetry of the scorer\<close>

lemma zip_swap_map:
  "map (\<lambda>(x, y). g x y) (zip xs ys) = map (\<lambda>(y, x). g x y) (zip ys xs)"
proof (induction xs arbitrary: ys)
  case Nil
  then show ?case by simp
next
  case (Cons x xs)
  then show ?case by (cases ys) simp_all
qed

lemma covariance_commute: "covariance xs ys = covariance ys xs"
proof -
  have "map (\<lambda>(x, y). (x - mean xs) * (y - mean ys)) (zip xs ys) =
        map (\<lambda>(y, x). (x - mean xs) * (y - mean ys)) (zip ys xs)"
    by (rule zip_swap_map)
  also have "\<dots> = map (\<lambda>(y, x). (y - mean ys) * (x - mean xs)) (zip ys xs)"
    by (simp add: mult.commute)
  finally show ?thesis by (simp add: covariance_def)
qed

lemma window_ssim_commute: "window_ssim xs ys = window_ssim ys xs"
  by (simp add: window_ssim_def covariance_commute [of xs ys] mult.commute add.commute)

lemma shape_eq: "shape a = shape b \<Longrightarrow> rows a = rows b \<and> cols a = cols b"
  by (auto simp: shape_def split: option.splits)

text \<open>
  C9. With the scorer of the spec in the place of the library call, the score of two
  images of equal dimensions does not depend on the order of the two images.
\<close>

theorem score_symmetric:
  assumes "shape a = shape b"
  shows "calculate_similarity (lib\<lparr>ssim := \<lambda>x y. Inr (score win x y)\<rparr>) a b =
         calculate_similarity (lib\<lparr>ssim := \<lambda>x y. Inr (score win x y)\<rparr>) b a"
proof -
  have "window_positions win a = window_positions win b"
    using shape_eq [OF assms] by (simp add: window_positions_def)
  then show ?thesis
    by (simp add: calculate_similarity_def score_def Let_def
        window_ssim_commute [of "window_at win a _"])
qed

theorem score_symmetric_witness:
  "shape (Image 2 2 None [10, 20, 30, 40]) = shape (Image 2 2 None [40, 30, 20, 10]) \<and>
   calculate_similarity ((test_cv Map.empty)\<lparr>ssim := \<lambda>x y. Inr (score 2 x y)\<rparr>)
     (Image 2 2 None [10, 20, 30, 40]) (Image 2 2 None [40, 30, 20, 10]) =
   calculate_similarity ((test_cv Map.empty)\<lparr>ssim := \<lambda>x y. Inr (score 2 x y)\<rparr>)
     (Image 2 2 None [40, 30, 20, 10]) (Image 2 2 None [10, 20, 30, 40])"
proof -
  have same: "shape (Image 2 2 None [10, 20, 30, 40]) = shape (Image 2 2 None [40, 30, 20, 10])"
    by (simp add: shape_def)
  show ?thesis
    using same score_symmetric [OF same] by simp
qed

subsection \<open>Slides of another size or without colour\<close>

lemma test_gray_const:
  "test_gray (Image r c (Some 3) (replicate (r * c * 3) v)) =
     Inr (Image r c None (replicate (r * c) v))"
proof -
  have "sum_list (take 3 (drop (i * 3) (replicate (r * c * 3) v))) div 3 = v" if "i < r * c" for i
  proof -
    from that have "min 3 (r * c * 3 - i * 3) = 3" by simp
    then show ?thesis by (simp add: sum_list_replicate)
  qed
  then have "map (\<lambda>i. sum_list (take 3 (drop (i * 3) (replicate (r * c * 3) v))) div 3)
        [0..<r * c] = map (\<lambda>i. v) [0..<r * c]"
    by (intro map_cong) simp_all
  then show ?thesis by (simp add: test_gray_def map_replicate_const)
qed

lemma test_resize_const:
  assumes "0 < w" "0 < h" "0 < r" "0 < c"
  shows "test_resize (Image r c None (replicate (r * c) v)) (w, h) =
     Inr (Image h w None (replicate (h * w) v))"
proof -
  have inside: "(i div w * r div h) * c + (i mod w) * c div w < r * c" if "i < h * w" for i
  proof -
    from that assms have "i div w < h"
      by (simp add: less_mult_imp_div_less)
    then have "i div w * r < r * h" using assms by simp
    then have row: "i div w * r div h < r"
      using assms by (simp add: less_mult_imp_div_less)
    have "i mod w * c < c * w" using assms by simp
    then have col: "i mod w * c div w < c"
      using assms by (simp add: less_mult_imp_div_less)
    from row have "Suc (i div w * r div h) \<le> r" by simp
    then have "Suc (i div w * r div h) * c \<le> r * c" by (rule mult_le_mono1)
    with col show ?thesis by simp
  qed
  have "map (\<lambda>i. replicate (r * c) v ! (i div w * r div h * c + i mod w * c div w))
          [0..<h * w] = map (\<lambda>i. v) [0..<h * w]"
    using inside by (intro map_cong) simp_all
  then show ?thesis
    using assms by (simp add: test_resize_def map_replicate_const)
qed

lemma matched_score_large [simp]:
  "matched_score (test_cv vs) (Image 7 7 None (replicate 49 a)) (large b) =
     Inr (1 - \<bar>real a - real b\<bar> / 255)"
  using test_gray_const [of 14 14 b] test_resize_const [of 7 7 14 14 b]
  by (simp add: matched_score_def grey_version_def fitted_def shape_def test_ssim_def
      Let_def sum_list_replicate field_simps large_def)

lemma matched_score_grey [simp]:
  "matched_score (test_cv vs) (Image 7 7 None (replicate 49 a)) (grey b) =
     Inr (1 - \<bar>real a - real b\<bar> / 255)"
  by (simp add: matched_score_def grey_version_def fitted_def shape_def test_ssim_def
      Let_def sum_list_replicate field_simps grey_def)

lemma slide_score_large [simp]:
  "slide_score (test_cv vs) (Image 7 7 None (replicate 49 a)) (large b) =
     Inr (1 - \<bar>real a - real b\<bar> / 255)"
  by (simp add: slide_score_matched)

lemma slide_score_grey [simp]:
  "slide_score (test_cv vs) (Image 7 7 None (replicate 49 a)) (grey b) =
     Inr (1 - \<bar>real a - real b\<bar> / 255)"
  by (simp add: slide_score_matched)

lemma large_steps:
  "grey_version (test_cv vs) (large 10) = Inr (Image 14 14 None (replicate 196 10))"
  "fitted (test_cv vs) (Image 7 7 None (replicate 49 200))
     (Image 14 14 None (replicate 196 10)) = Inr (Image 7 7 None (replicate 49 10))"
  using test_gray_const [of 14 14 10] test_resize_const [of 7 7 14 14 10]
  by (simp_all add: grey_version_def fitted_def shape_def large_def)

subsection \<open>The statements at concrete inputs\<close>

text \<open>
  The decision rule on a frame of value 200 and three stored slides: a colour slide of
  another size, which is converted and resized and scores 13/51; a grey slide of the
  frame's size, which is scored as it is, 49/51, above the limit for the threshold 0.15;
  and a third slide, which is not scored any more.
\<close>

theorem is_new_slide_decision_witness:
  "cvtColor_BGR2GRAY (test_cv Map.empty) (solid 200) = Inr (Image 7 7 None (replicate 49 200)) \<and>
   grey_version (test_cv Map.empty) (large 10) = Inr (Image 14 14 None (replicate 196 10)) \<and>
   fitted (test_cv Map.empty) (Image 7 7 None (replicate 49 200))
     (Image 14 14 None (replicate 196 10)) = Inr (Image 7 7 None (replicate 49 10)) \<and>
   matched_score (test_cv Map.empty) (Image 7 7 None (replicate 49 200)) (large 10) =
     Inr (13 / 51) \<and>
   matched_score (test_cv Map.empty) (Image 7 7 None (replicate 49 200)) (grey 190) =
     Inr (49 / 51) \<and>
   is_new_slide (test_cv Map.empty) (SlideDetector_init 0.15) (solid 200)
       [large 10, grey 190, solid 200] = Inr False \<and>
   is_new_slide_scored (test_cv Map.empty) (SlideDetector_init 0.15) (solid 200)
       [large 10, grey 190, solid 200] = (Inr False, [large 10, grey 190]) \<and>
   is_new_slide (test_cv Map.empty) (SlideDetector_init 0.15) (solid 200) [] = Inr True"
  using is_new_slide_decision [of "test_cv Map.empty" "SlideDetector_init 0.15" "solid 200"
      "[large 10, grey 190, solid 200]"] large_steps [of Map.empty]
  by (simp add: limit_default)




theorem slides_kept_apart_witness:
  "read_frames_traced (test_cv test_videos) (VideoProcessor_init 0.15 1 False)
     (take 4 [solid 10, solid 10, solid 10, solid 200]) [] 0 =
     (Inr ([solid 10, solid 200], 4),
      [(0, [], []), (1, [solid 10], [solid 10]), (2, [solid 10], [solid 10]),
       (3, [solid 10], [solid 10])]) \<and>
   kept_apart (test_cv test_videos) (SlideDetector_init 0.15) [solid 10, solid 200] \<and>
   matched_score (test_cv test_videos) (Image 7 7 None (replicate 49 200)) (solid 10) =
     Inr (13 / 51) \<and>
   sorted_wrt (<) [0, 1, 2, (3::int)]"
proof -
  have run: "read_frames_traced (test_cv test_videos) (VideoProcessor_init 0.15 1 False)
      (take 4 [solid 10, solid 10, solid 10, solid 200]) [] 0 =
      (Inr ([solid 10, solid 200], 4),
       [(0, [], []), (1, [solid 10], [solid 10]), (2, [solid 10], [solid 10]),
        (3, [solid 10], [solid 10])])"
    by (simp add: limit_default)
  show ?thesis
    using run slides_kept_apart [OF run] by simp
qed

text \<open>
  Two videos that open and deliver frames, at stride 1, from which \<open>extract_slides\<close>
  returns no list at all: frames of one pixel, where the scorer raises at the second
  frame, and frames of 2000 rows and one column, where the preprocessing asks for a
  width of \<open>int(1 * 0.512) = 0\<close> and the resizing raises at the first frame.
\<close>

theorem first_frame_small_frames_counterexample:
  "VideoCapture (test_cv test_videos) ''tiny.mp4'' = Some [dot 10, dot 200] \<and>
   extract_slides (test_cv test_videos) (VideoProcessor_init 0.15 1 False) ''tiny.mp4'' =
     Inl (ValueError ''win_size exceeds image extent.'') \<and>
   VideoCapture (test_cv test_videos) ''thin.mp4'' = Some [thin, thin] \<and>
   extract_slides (test_cv test_videos) (VideoProcessor_init 0.15 1 False) ''thin.mp4'' =
     Inl (cv2_error ''resize: empty source or target size'')"
  by (simp add: extract_slides_def)

theorem first_frame_is_a_slide_witness:
  "VideoCapture (test_cv test_videos) ''talk.mp4'' =
     Some [solid 10, solid 10, solid 10, solid 200] \<and>
   [solid 10, solid 10, solid 10, solid 200] \<noteq> [] \<and>
   frame_skip (VideoProcessor_init 0.15 1 False) \<noteq> 0 \<and>
   library_accepts (test_cv test_videos)
     (sample 1 0 [solid 10, solid 10, solid 10, solid 200]) \<and>
   extract_slides (test_cv test_videos) (VideoProcessor_init 0.15 1 False) ''talk.mp4'' =
     Inr [solid 10, solid 200]"
  using first_frame_is_a_slide [of "test_cv test_videos" "''talk.mp4''"
      "[solid 10, solid 10, solid 10, solid 200]" "VideoProcessor_init 0.15 1 False"]
  by (simp add: extract_slides_def library_accepts_def limit_default)

text \<open>
  Configurations outside the contract on which the extraction does not fail: the
  thresholds 0 and 1.5 and the stride -1 on a video of four frames, and the stride 0 on
  a video without frames.
\<close>

theorem extract_slides_unchecked_config_counterexample:
  "extract_slides (test_cv test_videos) (VideoProcessor_init 0 1 False) ''talk.mp4'' =
     Inr [solid 10, solid 10, solid 10, solid 200] \<and>
   extract_slides (test_cv test_videos) (VideoProcessor_init 1.5 1 False) ''talk.mp4'' =
     Inr [solid 10] \<and>
   extract_slides (test_cv test_videos) (VideoProcessor_init 0.15 (- 1) False) ''talk.mp4'' =
     Inr [solid 10, solid 200] \<and>
   extract_slides (test_cv test_videos) (VideoProcessor_init 0.15 0 False) ''empty.mp4'' =
     Inr []"
  by (simp add: extract_slides_def limit_default limit_zero limit_large)

theorem extract_slides_any_config_witness:
  "VideoCapture (test_cv test_videos) ''talk.mp4'' =
     Some [solid 10, solid 10, solid 10, solid 200] \<and>
   extract_slides (test_cv test_videos) (VideoProcessor_init 1.5 0 False) ''talk.mp4'' =
     Inl ZeroDivisionError \<and>
   library_accepts (test_cv test_videos)
     (sample (- 1) 0 [solid 10, solid 10, solid 10, solid 200]) \<and>
   extract_slides (test_cv test_videos) (VideoProcessor_init 1.5 (- 1) False) ''talk.mp4'' =
     Inr [solid 10]"
proof -
  have opened: "VideoCapture (test_cv test_videos) ''talk.mp4'' =
      Some [solid 10, solid 10, solid 10, solid 200]" by simp
  have acc: "library_accepts (test_cv test_videos)
      (sample (- 1) 0 [solid 10, solid 10, solid 10, solid 200])"
    by (simp add: library_accepts_def)
  show ?thesis
    using opened acc
      extract_slides_any_config [OF opened, of 0 "1.5" False]
      extract_slides_any_config [OF opened, of "- 1" "1.5" False]
    by (simp add: admit_def limit_large)
qed

text \<open>
  A threshold in \<open>(0, 1]\<close> on a video of three identical frames that yields three slides:
  the float \<open>1.0 - 2 ** -60\<close> is 1.0, which the score 1.0 of a frame against itself does
  not exceed.
\<close>

theorem still_video_tiny_threshold_counterexample:
  "0 < (1 / 2 ^ 60 :: real) \<and> (1 / 2 ^ 60 :: real) \<le> 1 \<and>
   extract_slides (test_cv test_videos) (VideoProcessor_init (1 / 2 ^ 60) 1 False) ''still.mp4'' =
     Inr [solid 10, solid 10, solid 10]"
  by (simp add: extract_slides_def limit_tiny)

theorem still_video_one_slide_witness:
  "VideoCapture (test_cv test_videos) ''still.mp4'' = Some [solid 10, solid 10, solid 10] \<and>
   [solid 10, solid 10, solid 10] \<noteq> [] \<and>
   set [solid 10, solid 10, solid 10] \<subseteq> {solid 10} \<and>
   (1 / 2 ^ 54 :: real) < 0.15 \<and> (1::int) \<noteq> 0 \<and>
   preprocess_frame (test_cv test_videos) (solid 10) = Inr (solid 10) \<and>
   length (shape (solid 10)) = 3 \<and>
   cvtColor_BGR2GRAY (test_cv test_videos) (solid 10) = Inr (Image 7 7 None (replicate 49 10)) \<and>
   ssim (test_cv test_videos) (Image 7 7 None (replicate 49 10))
     (Image 7 7 None (replicate 49 10)) = Inr (1, replicate 49 1) \<and>
   extract_slides (test_cv test_videos) (VideoProcessor_init 0.15 1 False) ''still.mp4'' =
     Inr [solid 10]"
proof -
  have score: "ssim (test_cv test_videos) (Image 7 7 None (replicate 49 10))
      (Image 7 7 None (replicate 49 10)) = Inr (1, replicate 49 1)"
    by (simp add: test_ssim_def shape_def Let_def sum_list_replicate)
  show ?thesis
    using score
      still_video_one_slide [of "test_cv test_videos" "''still.mp4''"
        "[solid 10, solid 10, solid 10]" "solid 10" "0.15" 1 "solid 10"
        "Image 7 7 None (replicate 49 10)" "replicate 49 1" False]
    by simp
qed

text \<open>
  The frames A, A, A, B give two slides at stride 3 and one slide at stride 2, which
  does not sample the fourth frame.
\<close>

theorem slide_count_not_monotone_counterexample:
  "extract_slides (test_cv test_videos) (VideoProcessor_init 0.15 3 False) ''talk.mp4'' =
     Inr [solid 10, solid 200] \<and>
   extract_slides (test_cv test_videos) (VideoProcessor_init 0.15 2 False) ''talk.mp4'' =
     Inr [solid 10]"
  by (simp add: extract_slides_def limit_default)

text \<open>
  Nor does a stride that divides the other one help when resemblance is not transitive:
  three slides at stride 2, two at stride 1.
\<close>

lemma slide_count_not_monotone_divisor:
  "extract_slides (test_cv test_videos) (VideoProcessor_init 0.15 2 False) ''fade.mp4'' =
     Inr [solid 0, solid 70, solid 130] \<and>
   extract_slides (test_cv test_videos) (VideoProcessor_init 0.15 1 False) ''fade.mp4'' =
     Inr [solid 0, solid 100]"
  by (simp add: extract_slides_def limit_default)

theorem slide_count_monotone_on_classes_witness:
  "VideoCapture (test_cv test_videos) ''talk.mp4'' =
     Some [solid 10, solid 10, solid 10, solid 200] \<and>
   (1::int) \<le> 1 \<and> (1::int) \<le> 2 \<and> (1::int) dvd 2 \<and>
   extract_slides (test_cv test_videos) (VideoProcessor_init 0.15 2 False) ''talk.mp4'' =
     Inr [solid 10] \<and>
   extract_slides (test_cv test_videos) (VideoProcessor_init 0.15 1 False) ''talk.mp4'' =
     Inr [solid 10, solid 200] \<and>
   (\<exists>S S'. extract_slides (test_cv test_videos) (VideoProcessor_init 0.15 2 False) ''talk.mp4'' =
       Inr S \<and>
     extract_slides (test_cv test_videos) (VideoProcessor_init 0.15 1 False) ''talk.mp4'' =
       Inr S' \<and>
     length S \<le> length S')"
proof -
  let ?lib = "test_cv test_videos" and ?frames = "[solid 10, solid 10, solid 10, solid 200]"
  let ?det = "SlideDetector_init 0.15"
  let ?P = "(\<lambda>f. projr (preprocess_frame ?lib f)) ` set ?frames"
  have opened: "VideoCapture ?lib ''talk.mp4'' = Some ?frames" by simp
  have strides: "(1::int) \<le> 1" "(1::int) \<le> 2" "(1::int) dvd 2" by simp_all
  have pre: "\<forall>f\<in>set ?frames. \<not> isl (preprocess_frame ?lib f)" by simp
  have cmp: "\<forall>x\<in>?P. \<forall>y\<in>?P. comparable ?lib x y" by simp
  have refl: "\<forall>x\<in>?P. resembles ?lib ?det x x"
    by (simp add: limit_default)
  have sym: "\<forall>x\<in>?P. \<forall>y\<in>?P. resembles ?lib ?det x y \<longrightarrow> resembles ?lib ?det y x"
    by (simp add: limit_default)
  have trans: "\<forall>x\<in>?P. \<forall>y\<in>?P. \<forall>z\<in>?P.
        resembles ?lib ?det x y \<longrightarrow> resembles ?lib ?det y z \<longrightarrow> resembles ?lib ?det x z"
    by (simp add: limit_default)
  have runs:
    "extract_slides ?lib (VideoProcessor_init 0.15 2 False) ''talk.mp4'' = Inr [solid 10]"
    "extract_slides ?lib (VideoProcessor_init 0.15 1 False) ''talk.mp4'' =
       Inr [solid 10, solid 200]"
    by (simp_all add: extract_slides_def limit_default)
  show ?thesis
    using opened strides runs
      slide_count_monotone_on_classes [OF opened strides pre cmp refl sym trans, of False]
    by simp
qed

theorem save_slide_returns_none_witness:
  "fst (save_slide (test_imwrite [''out/slide_002.jpg'']) (solid 200) ''out/slide_002.jpg''
          Map.empty) = Inr () \<and>
   fst (save_slides (test_imwrite [''out/slide_002.jpg'']) ''out'' 0
          [solid 10, solid 200, solid 70] Map.empty) = Inr () \<and>
   snd (snd (save_slides (recording (test_imwrite [''out/slide_002.jpg''])) ''out'' 0
       [solid 10, solid 200, solid 70] (Map.empty, []))) =
     [(''out/slide_001.jpg'', Inr True), (''out/slide_002.jpg'', Inr False),
      (''out/slide_003.jpg'', Inr True)]"
proof -
  note all = save_slide_returns_none [of "test_imwrite [''out/slide_002.jpg'']" "solid 200"
      "''out/slide_002.jpg''" Map.empty "''out''" "[solid 10, solid 200, solid 70]"]
  have "fst (save_slide (test_imwrite [''out/slide_002.jpg'']) (solid 200)
      ''out/slide_002.jpg'' Map.empty) = Inr ()"
    using all [THEN conjunct1] by (simp add: test_imwrite_def)
  moreover have "fst (save_slides (test_imwrite [''out/slide_002.jpg'']) ''out'' 0
          [solid 10, solid 200, solid 70] Map.empty) = Inr ()"
    using all [THEN conjunct2, THEN conjunct2] save_run(1) by auto
  ultimately show ?thesis using save_run(2) by simp
qed

end
